theory Spec2Isabelle
  imports Complex_Main
begin

section \<open>Values handed to the conversion routine\<close>

text \<open>
  \<^verbatim>\<open>Num2FracStr\<close> (src/js/num2decstrl.js) receives a JavaScript number or a string.
  A number is modelled by what \<^verbatim>\<open>String(number)\<close> looks at: not-a-number, the two
  infinities, the two zeros, and a finite nonzero value given by its sign, the digit
  string of its shortest decimal significand and the position \<open>n\<close> of the decimal
  point (the value is \<open>0.digits \<times> 10^n\<close>), as in Number::toString of ECMAScript.

  The routine can end in three ways: it returns a string, it throws the error of line 42,
  or a built-in it calls throws a \<^verbatim>\<open>RangeError\<close>. The last happens at lines 100, 112 and
  129, where \<^verbatim>\<open>padEnd\<close>, \<^verbatim>\<open>repeat\<close> and \<^verbatim>\<open>+\<close> build a string whose length grows
  with the exponent: a JavaScript string has a longest length, fixed by the engine.
\<close>

datatype js_number = NaN | PosInfinity | NegInfinity | Zero bool | Finite bool string int

datatype js_value = JNumber js_number | JString string

datatype error = Error string | RangeError

text \<open>
  The longest string: the language allows at most \<open>2^53 - 1\<close> characters and every engine
  far fewer. The value is that of V8, \<open>2^29 - 24\<close>; the proofs use only that it is positive
  and below \<open>2^52\<close>. The strings that grow with the exponent (lines 100, 112 and 129) are
  checked against it. The message of line 42 and the strings of lines 70, 106 and 120
  add at most 18 characters to parts of the input and are built without a check: an
  input string is taken to be at least that much shorter than the longest string.
\<close>

definition max_string_length :: int where
  "max_string_length = 536870888"

text \<open>
  The Number values the routine computes with are \<^verbatim>\<open>Number(match[4])\<close> and
  \<^verbatim>\<open>mantissa_int.length + exponent\<close>: integers held in a double, the infinities, or NaN.
\<close>

datatype number_value = NotANumber | Integer int | PlusInfinity | MinusInfinity

definition is_digit :: "char \<Rightarrow> bool" where
  "is_digit c = (c \<in> set ''0123456789'')"

definition is_zero :: "char \<Rightarrow> bool" where
  "is_zero c = (c = CHR ''0'')"

definition is_sign :: "char \<Rightarrow> bool" where
  "is_sign c = (c = CHR ''+'' \<or> c = CHR ''-'')"

definition is_exp_mark :: "char \<Rightarrow> bool" where
  "is_exp_mark c = (c = CHR ''e'' \<or> c = CHR ''E'')"

definition digit_val :: "char \<Rightarrow> nat" where
  "digit_val c = of_char c - 48"

definition digit_char :: "nat \<Rightarrow> char" where
  "digit_char d = ''0123456789'' ! d"

definition digits_val :: "string \<Rightarrow> nat" where
  "digits_val ds = foldl (\<lambda>a c. 10 * a + digit_val c) 0 ds"

function dec_of_nat :: "nat \<Rightarrow> string" where
  "dec_of_nat n = (if n < 10 then [digit_char n]
                   else dec_of_nat (n div 10) @ [digit_char (n mod 10)])"
  by pat_completeness auto
termination
  by (relation "measure id") auto

declare dec_of_nat.simps [simp del]

text \<open>
  \<^verbatim>\<open>String(number)\<close>: Number::toString with radix 10. With \<open>k\<close> the number of digits:
  plain digits padded with zeros when \<open>k \<le> n \<le> 21\<close>, a decimal point inside the digits
  when \<open>0 < n \<le> 21\<close>, \<open>0.\<close> and \<open>-n\<close> zeros when \<open>-6 < n \<le> 0\<close>, and exponential notation
  otherwise.
\<close>

definition wf_number :: "js_number \<Rightarrow> bool" where
  "wf_number x = (case x of
      Finite neg ds n \<Rightarrow> ds \<noteq> [] \<and> list_all is_digit ds \<and> \<not> is_zero (hd ds) \<and> \<not> is_zero (last ds)
    | _ \<Rightarrow> True)"

definition exp_text :: "int \<Rightarrow> string" where
  "exp_text e = (if e < 0 then ''-'' else ''+'') @ dec_of_nat (nat \<bar>e\<bar>)"

definition render_finite :: "string \<Rightarrow> int \<Rightarrow> string" where
  "render_finite ds n =
     (let k = int (length ds) in
      if k \<le> n \<and> n \<le> 21 then ds @ replicate (nat (n - k)) CHR ''0''
      else if 0 < n \<and> n \<le> 21 then take (nat n) ds @ ''.'' @ drop (nat n) ds
      else if -6 < n \<and> n \<le> 0 then ''0.'' @ replicate (nat (- n)) CHR ''0'' @ ds
      else if k = 1 then ds @ ''e'' @ exp_text (n - 1)
      else take 1 ds @ ''.'' @ drop 1 ds @ ''e'' @ exp_text (n - 1))"

fun String :: "js_value \<Rightarrow> string" where
  "String (JString s) = s"
| "String (JNumber NaN) = ''NaN''"
| "String (JNumber PosInfinity) = ''Infinity''"
| "String (JNumber NegInfinity) = ''-Infinity''"
| "String (JNumber (Zero neg)) = ''0''"
| "String (JNumber (Finite neg ds n)) = (if neg then ''-'' else '''') @ render_finite ds n"

section \<open>The regular expression of line 27\<close>

text \<open>
  \<^verbatim>\<open>/^([+-]?)0*([1-9][0-9]*|)(?:\.([0-9]*[1-9]|)0*)?(?:[eE]([+-]?[0-9]+))?$/\<close>
  The record holds the four capture groups; a group that took no part in the match is
  \<^verbatim>\<open>undefined\<close>, here \<open>None\<close>. Groups 1 and 2 always take part.
\<close>

record regex_groups =
  group1 :: string
  group2 :: string
  group3 :: "string option"
  group4 :: "string option"

definition strip_zeros_end :: "string \<Rightarrow> string" where
  "strip_zeros_end ds = rev (dropWhile is_zero (rev ds))"

text \<open>\<^verbatim>\<open>(?:[eE]([+-]?[0-9]+))?$\<close> on the rest of the string.\<close>

definition match_exponent :: "string \<Rightarrow> string option option" where
  "match_exponent r =
     (case r of
        [] \<Rightarrow> Some None
      | c # t \<Rightarrow>
          if is_exp_mark c then
            (let ds = (case t of [] \<Rightarrow> [] | d # u \<Rightarrow> if is_sign d then u else t)
             in if ds \<noteq> [] \<and> list_all is_digit ds then Some (Some t) else None)
          else None)"

text \<open>\<^verbatim>\<open>(?:\.([0-9]*[1-9]|)0*)?\<close>: group 3 and the rest of the string.\<close>

definition match_fraction :: "string \<Rightarrow> string option \<times> string" where
  "match_fraction r =
     (case r of
        [] \<Rightarrow> (None, [])
      | c # t \<Rightarrow>
          if c = CHR ''.'' then (Some (strip_zeros_end (takeWhile is_digit t)), dropWhile is_digit t)
          else (None, r))"

definition regex_match :: "string \<Rightarrow> regex_groups option" where
  "regex_match numStr =
     (let (g1, r1) = (case numStr of [] \<Rightarrow> ([], [])
                      | c # t \<Rightarrow> if is_sign c then ([c], t) else ([], numStr));
          r2 = dropWhile is_zero r1;
          g2 = takeWhile is_digit r2;
          r3 = dropWhile is_digit r2;
          (g3, r4) = match_fraction r3
      in case match_exponent r4 of
           None \<Rightarrow> None
         | Some g4 \<Rightarrow> Some \<lparr>group1 = g1, group2 = g2, group3 = g3, group4 = g4\<rparr>)"

section \<open>The conversion\<close>

text \<open>
  The double nearest to an integer: exact up to \<open>2^53\<close>; beyond, the 53 leading bits are
  kept and the rest is rounded to nearest, ties to even; from \<open>2^1024\<close> on the result is
  infinite.
\<close>

function ulp :: "int \<Rightarrow> int" where
  "ulp v = (if v < 2 ^ 53 then 1 else 2 * ulp (v div 2))"
  by pat_completeness auto
termination
  by (relation "measure nat") auto

declare ulp.simps [simp del]

definition round_magnitude :: "int \<Rightarrow> int option" where
  "round_magnitude v =
     (if v \<le> 2 ^ 53 then Some v
      else (let u = ulp v; q = v div u; r = v mod u;
                w = (if 2 * r < u \<or> (2 * r = u \<and> even q) then q else q + 1) * u
            in if w < 2 ^ 1024 then Some w else None))"

definition to_double :: "int \<Rightarrow> number_value" where
  "to_double v = (case round_magnitude \<bar>v\<bar> of
      None \<Rightarrow> if v < 0 then MinusInfinity else PlusInfinity
    | Some w \<Rightarrow> Integer (if v < 0 then - w else w))"

text \<open>\<^verbatim>\<open>Number(match[4])\<close>: \<^verbatim>\<open>undefined\<close> gives NaN, a signed digit string the double
  nearest to its integer.\<close>

definition digits_int :: "string \<Rightarrow> int" where
  "digits_int ds = foldl (\<lambda>a c. 10 * a + int (digit_val c)) 0 ds"

definition Number :: "string option \<Rightarrow> number_value" where
  "Number g = (case g of
      None \<Rightarrow> NotANumber
    | Some t \<Rightarrow> (case t of
          [] \<Rightarrow> Integer 0
        | c # u \<Rightarrow> if c = CHR ''-'' then to_double (- digits_int u)
                   else if c = CHR ''+'' then to_double (digits_int u)
                   else to_double (digits_int t)))"

text \<open>\<^verbatim>\<open>if (exponent)\<close>, \<^verbatim>\<open>mantissa_int.length + exponent\<close>, \<^verbatim>\<open>mantissa_len <= mantissa_int_len\<close>,
  \<^verbatim>\<open>0 < mantissa_int_len\<close> and \<^verbatim>\<open>-mantissa_int_len\<close> on these values.\<close>

definition truthy :: "number_value \<Rightarrow> bool" where
  "truthy x = (case x of NotANumber \<Rightarrow> False | Integer k \<Rightarrow> k \<noteq> 0 | _ \<Rightarrow> True)"

definition add_length :: "nat \<Rightarrow> number_value \<Rightarrow> number_value" where
  "add_length n x = (case x of Integer k \<Rightarrow> to_double (int n + k) | _ \<Rightarrow> x)"

definition length_le :: "nat \<Rightarrow> number_value \<Rightarrow> bool" where
  "length_le n x = (case x of Integer k \<Rightarrow> int n \<le> k | PlusInfinity \<Rightarrow> True | _ \<Rightarrow> False)"

definition positive :: "number_value \<Rightarrow> bool" where
  "positive x = (case x of Integer k \<Rightarrow> 0 < k | PlusInfinity \<Rightarrow> True | _ \<Rightarrow> False)"

definition negate :: "number_value \<Rightarrow> number_value" where
  "negate x = (case x of Integer k \<Rightarrow> Integer (- k) | PlusInfinity \<Rightarrow> MinusInfinity
     | MinusInfinity \<Rightarrow> PlusInfinity | NotANumber \<Rightarrow> NotANumber)"

text \<open>\<^verbatim>\<open>a + b\<close> on strings: a \<^verbatim>\<open>RangeError\<close> when the result is longer than the longest
  string.\<close>

definition string_plus :: "string \<Rightarrow> string \<Rightarrow> error + string" where
  "string_plus a b =
     (if max_string_length < int (length a) + int (length b) then Inl RangeError else Inr (a @ b))"

text \<open>\<^verbatim>\<open>str.padEnd(n, "0")\<close>: \<open>n\<close> is clamped to \<open>0 .. 2^53 - 1\<close> (ToLength); the string is
  returned as it is when it is that long already, and the padded string must not exceed
  the longest string.\<close>

definition ToLength :: "number_value \<Rightarrow> int" where
  "ToLength x = (case x of Integer k \<Rightarrow> min (max k 0) (2 ^ 53 - 1) | PlusInfinity \<Rightarrow> 2 ^ 53 - 1
     | _ \<Rightarrow> 0)"

definition padEnd :: "string \<Rightarrow> number_value \<Rightarrow> error + string" where
  "padEnd s n =
     (let intMaxLength = ToLength n in
      if intMaxLength \<le> int (length s) then Inr s
      else if max_string_length < intMaxLength then Inl RangeError
      else Inr (s @ replicate (nat (intMaxLength - int (length s))) CHR ''0''))"

text \<open>\<^verbatim>\<open>"0".repeat(n)\<close>: a \<^verbatim>\<open>RangeError\<close> for a negative or infinite count and for a result
  longer than the longest string.\<close>

definition repeat0 :: "number_value \<Rightarrow> error + string" where
  "repeat0 n = (case n of
      Integer k \<Rightarrow> if k < 0 \<or> max_string_length < k then Inl RangeError
                   else Inr (replicate (nat k) CHR ''0'')
    | NotANumber \<Rightarrow> Inr []
    | _ \<Rightarrow> Inl RangeError)"

text \<open>\<^verbatim>\<open>str.slice(a)\<close> and \<^verbatim>\<open>str.slice(a, b)\<close>: a negative index counts from the end, and
  an index is clamped to the string.\<close>

definition slice_index :: "string \<Rightarrow> int \<Rightarrow> nat" where
  "slice_index s i = (if i < 0 then nat (max (int (length s) + i) 0) else min (nat i) (length s))"

definition relative_index :: "string \<Rightarrow> number_value \<Rightarrow> nat" where
  "relative_index s x = (case x of Integer i \<Rightarrow> slice_index s i | PlusInfinity \<Rightarrow> length s | _ \<Rightarrow> 0)"

definition slice :: "string \<Rightarrow> number_value \<Rightarrow> number_value \<Rightarrow> string" where
  "slice s a b = (let from = relative_index s a; to = relative_index s b in take (to - from) (drop from s))"

definition slice_from :: "string \<Rightarrow> number_value \<Rightarrow> string" where
  "slice_from s a = drop (relative_index s a) s"

text \<open>\<^verbatim>\<open>.replace(/^(?:0(?!\.|$))+/, "")\<close>: leading zeros go while another character that is
  not the decimal point follows.\<close>

fun strip_leading :: "string \<Rightarrow> string" where
  "strip_leading (c # d # t) = (if is_zero c \<and> d \<noteq> CHR ''.'' then strip_leading (d # t) else c # d # t)"
| "strip_leading s = s"

text \<open>\<^verbatim>\<open>.replace(/(?:\.0+|(\.[0-9]*[1-9])0+)$/, "$1")\<close>: the leftmost decimal point that is
  followed up to the end by digits of which the last is a zero; the match is replaced by
  nothing when all of them are zeros, by the point and the digits without their final
  zeros otherwise.\<close>

fun strip_trailing :: "string \<Rightarrow> string" where
  "strip_trailing [] = []"
| "strip_trailing (c # t) =
     (if c = CHR ''.'' \<and> t \<noteq> [] \<and> list_all is_digit t \<and> is_zero (last t)
      then (if list_all is_zero t then [] else c # strip_zeros_end t)
      else c # strip_trailing t)"

text \<open>Lines 55 to 127: \<^verbatim>\<open>returnValue\<close>, or the \<^verbatim>\<open>RangeError\<close> of line 100 or 112.\<close>

definition returnValue :: "string \<Rightarrow> string \<Rightarrow> number_value \<Rightarrow> error + string" where
  "returnValue mantissa_int mantissa_frac exponent =
     (if truthy exponent then
        (let mantissa_str = mantissa_int @ mantissa_frac;
             mantissa_len = length mantissa_str
         in if 0 < mantissa_len then
              (let mantissa_int_len = add_length (length mantissa_int) exponent
               in if length_le mantissa_len mantissa_int_len then padEnd mantissa_str mantissa_int_len
                  else if positive mantissa_int_len then
                    Inr (slice mantissa_str (Integer 0) mantissa_int_len @ ''.''
                         @ slice_from mantissa_str mantissa_int_len)
                  else (case repeat0 (negate mantissa_int_len) of
                          Inl err \<Rightarrow> Inl err
                        | Inr zeros \<Rightarrow>
                            (case string_plus ''0.'' zeros of
                               Inl err \<Rightarrow> Inl err
                             | Inr front \<Rightarrow> string_plus front mantissa_str)))
            else Inr [])
      else if mantissa_frac \<noteq> [] then
        Inr ((if mantissa_int \<noteq> [] then mantissa_int else ''0'') @ ''.'' @ mantissa_frac)
      else if mantissa_int \<noteq> [] then Inr mantissa_int
      else Inr [])"

text \<open>Lines 47 to 53: the parts of the literal taken from the capture groups.\<close>

definition sign :: "regex_groups \<Rightarrow> string" where
  "sign m = (if group1 m = ''-'' then ''-'' else [])"

definition mantissa_int :: "regex_groups \<Rightarrow> string" where
  "mantissa_int m = group2 m"

definition mantissa_frac :: "regex_groups \<Rightarrow> string" where
  "mantissa_frac m = (case group3 m of None \<Rightarrow> [] | Some f \<Rightarrow> f)"

definition exponent :: "regex_groups \<Rightarrow> number_value" where
  "exponent m = Number (group4 m)"

definition Num2FracStr :: "js_value \<Rightarrow> error + string" where
  "Num2FracStr number =
     (let numStr = String number in
      case regex_match numStr of
        None \<Rightarrow> (case number of
                    JNumber _ \<Rightarrow> Inr numStr
                  | JString _ \<Rightarrow> Inl (Error (''Invalid Number: \"'' @ numStr @ ''\"'')))
      | Some m \<Rightarrow>
          (case returnValue (mantissa_int m) (mantissa_frac m) (exponent m) of
             Inl err \<Rightarrow> Inl err
           | Inr rv \<Rightarrow>
               if rv \<noteq> [] then string_plus (sign m) (strip_trailing (strip_leading rv))
               else Inr ''0''))"

section \<open>The grammar of the specification\<close>

text \<open>
  \<^verbatim>\<open>literal := sign? integer-part ("." fraction-part)? exponent-part?\<close> with
  \<^verbatim>\<open>exponent-part := ("e"|"E") sign? digit+\<close>: the text of a literal from its parts, and the
  strings that are such a text. The integer and fraction parts are \<^verbatim>\<open>digit*\<close>; the added
  constraint of the specification (a nonzero digit in one of them, or the value is zero)
  holds for all digit strings.
\<close>

definition is_sign_text :: "string \<Rightarrow> bool" where
  "is_sign_text sg = (sg = [] \<or> sg = ''+'' \<or> sg = ''-'')"

definition fraction_text :: "string option \<Rightarrow> string" where
  "fraction_text fr = (case fr of None \<Rightarrow> [] | Some fp \<Rightarrow> CHR ''.'' # fp)"

definition exponent_text :: "(char \<times> string \<times> string) option \<Rightarrow> string" where
  "exponent_text ex = (case ex of None \<Rightarrow> [] | Some (mk, sg, ds) \<Rightarrow> mk # sg @ ds)"

definition literal_text :: "string \<Rightarrow> string \<Rightarrow> string option \<Rightarrow> (char \<times> string \<times> string) option \<Rightarrow> string" where
  "literal_text sg ip fr ex = sg @ ip @ fraction_text fr @ exponent_text ex"

definition literal_parts :: "string \<Rightarrow> string \<Rightarrow> string option \<Rightarrow> (char \<times> string \<times> string) option \<Rightarrow> bool" where
  "literal_parts sg ip fr ex =
     (is_sign_text sg \<and> list_all is_digit ip \<and>
      (case fr of None \<Rightarrow> True | Some fp \<Rightarrow> list_all is_digit fp) \<and>
      (case ex of None \<Rightarrow> True
       | Some (mk, sg2, ds) \<Rightarrow> is_exp_mark mk \<and> is_sign_text sg2 \<and> ds \<noteq> [] \<and> list_all is_digit ds))"

definition literal_grammar :: "string \<Rightarrow> bool" where
  "literal_grammar s = (\<exists>sg ip fr ex. literal_parts sg ip fr ex \<and> s = literal_text sg ip fr ex)"

definition is_whitespace :: "char \<Rightarrow> bool" where
  "is_whitespace c = (c \<in> set [CHR '' '', CHR 0x09, CHR 0x0A, CHR 0x0B, CHR 0x0C, CHR 0x0D])"

definition invalid_number :: "string \<Rightarrow> error" where
  "invalid_number s = Error (''Invalid Number: \"'' @ s @ ''\"'')"

text \<open>The shift of the decimal point in the words of the specification: \<open>mantissa\<close> is the
  digit run and \<open>splitPoint\<close> the position where the decimal point falls.\<close>

definition shifted_mantissa :: "string \<Rightarrow> int \<Rightarrow> string" where
  "shifted_mantissa mantissa splitPoint =
     (if int (length mantissa) \<le> splitPoint
      then mantissa @ replicate (nat (splitPoint - int (length mantissa))) CHR ''0''
      else if 0 < splitPoint
      then take (nat splitPoint) mantissa @ ''.'' @ drop (nat splitPoint) mantissa
      else ''0.'' @ replicate (nat (- splitPoint)) CHR ''0'' @ mantissa)"

section \<open>Canonical fixed-point strings and their values\<close>

text \<open>The canonical string of an integer digit run and a fraction digit run: a lone
  \<open>0\<close> stands for an empty integer part, and the decimal point is written only before a
  non-empty fraction.\<close>

definition fixed_point :: "string \<Rightarrow> string \<Rightarrow> string" where
  "fixed_point ip fp = (if ip = [] then ''0'' else ip) @ (if fp = [] then [] else CHR ''.'' # fp)"

text \<open>The integer and fraction digits after the decimal point of \<open>ip.fp\<close> has moved by
  \<open>e\<close> places.\<close>

definition shift_parts :: "string \<Rightarrow> string \<Rightarrow> int \<Rightarrow> string \<times> string" where
  "shift_parts ip fp e =
     (let mantissa = ip @ fp; splitPoint = int (length ip) + e in
      if int (length mantissa) \<le> splitPoint
      then (mantissa @ replicate (nat (splitPoint - int (length mantissa))) CHR ''0'', [])
      else if 0 < splitPoint then (take (nat splitPoint) mantissa, drop (nat splitPoint) mantissa)
      else ([], replicate (nat (- splitPoint)) CHR ''0'' @ mantissa))"

text \<open>The rational number a fixed-point string denotes: an optional \<open>-\<close>, the digits before
  the decimal point, and the digits after it.\<close>

definition unsigned_value :: "string \<Rightarrow> rat" where
  "unsigned_value u =
     (let ip = takeWhile (\<lambda>c. c \<noteq> CHR ''.'') u;
          fp = drop 1 (dropWhile (\<lambda>c. c \<noteq> CHR ''.'') u)
      in of_nat (digits_val ip) + of_nat (digits_val fp) / 10 ^ length fp)"

definition decimal_value :: "string \<Rightarrow> rat" where
  "decimal_value s = (case s of [] \<Rightarrow> 0
     | c # u \<Rightarrow> if c = CHR ''-'' then - unsigned_value u else unsigned_value s)"

text \<open>The rational number a literal of the grammar denotes, from its parts as written:
  sign \<open>\<times>\<close> integer-digits.fraction-digits \<open>\<times> 10^exponent\<close>.\<close>

definition literal_exponent :: "(char \<times> string \<times> string) option \<Rightarrow> int" where
  "literal_exponent ex = (case ex of None \<Rightarrow> 0
     | Some (mk, sg2, ds) \<Rightarrow> if sg2 = ''-'' then - int (digits_val ds) else int (digits_val ds))"

definition literal_value :: "string \<Rightarrow> string \<Rightarrow> string option \<Rightarrow> (char \<times> string \<times> string) option \<Rightarrow> rat" where
  "literal_value sg ip fr ex =
     (if sg = ''-'' then - 1 else 1) *
     (of_nat (digits_val ip) + (case fr of None \<Rightarrow> 0 | Some fp \<Rightarrow> of_nat (digits_val fp) / 10 ^ length fp)) *
     power_int 10 (literal_exponent ex)"

section \<open>The shape of an output\<close>

definition no_exponent_marker :: "string \<Rightarrow> bool" where
  "no_exponent_marker out = (CHR ''e'' \<notin> set out \<and> CHR ''E'' \<notin> set out)"

definition at_most_one_point :: "string \<Rightarrow> bool" where
  "at_most_one_point out = (length (filter (\<lambda>c. c = CHR ''.'') out) \<le> 1)"

definition unsigned_part :: "string \<Rightarrow> string" where
  "unsigned_part out = (case out of [] \<Rightarrow> [] | c # t \<Rightarrow> if c = CHR ''-'' then t else out)"

text \<open>A zero at the front is the whole output or stands before the decimal point.\<close>

definition no_leading_zeros :: "string \<Rightarrow> bool" where
  "no_leading_zeros out =
     (case unsigned_part out of c # d # t \<Rightarrow> c \<noteq> CHR ''0'' \<or> d = CHR ''.'' | _ \<Rightarrow> True)"

text \<open>A fixed-point numeral: an optional \<open>-\<close>, one or more digits, and optionally a decimal
  point followed by one or more digits. Its value is the one \<open>decimal_value\<close> gives.\<close>

definition decimal_numeral :: "string \<Rightarrow> bool" where
  "decimal_numeral s =
     (let u = unsigned_part s;
          ip = takeWhile (\<lambda>c. c \<noteq> CHR ''.'') u;
          rest = dropWhile (\<lambda>c. c \<noteq> CHR ''.'') u
      in ip \<noteq> [] \<and> list_all is_digit ip \<and>
         (rest = [] \<or> (drop 1 rest \<noteq> [] \<and> list_all is_digit (drop 1 rest))))"

definition no_trailing_zeros :: "string \<Rightarrow> bool" where
  "no_trailing_zeros out = (CHR ''.'' \<in> set out \<longrightarrow> out \<noteq> [] \<and> last out \<noteq> CHR ''0'' \<and> last out \<noteq> CHR ''.'')"

text \<open>Inputs whose rendering is a literal: every string is a candidate, and the numbers
  that are zero or finite.\<close>

definition finite_number :: "js_number \<Rightarrow> bool" where
  "finite_number x = (case x of Zero neg \<Rightarrow> True | Finite neg ds n \<Rightarrow> wf_number x | _ \<Rightarrow> False)"

text \<open>The canonical digits of \<open>ip.fp \<times> 10^e\<close>: the shifted runs without the zeros at the
  front of the integer part and at the end of the fraction.\<close>

definition canonical_parts :: "string \<Rightarrow> string \<Rightarrow> int \<Rightarrow> string \<times> string" where
  "canonical_parts ip fp e =
     (case shift_parts ip fp e of (i0, f0) \<Rightarrow> (dropWhile is_zero i0, strip_zeros_end f0))"

definition has_nonzero :: "string \<Rightarrow> bool" where
  "has_nonzero ds = (\<not> list_all is_zero ds)"

text \<open>The inputs of the routine: any string, and any number of the model that is well formed.
  An input is a literal input when its rendering can match: a string, or a finite number.\<close>

definition valid_input :: "js_value \<Rightarrow> bool" where
  "valid_input x = (case x of JString s \<Rightarrow> True | JNumber n \<Rightarrow> wf_number n)"

definition literal_input :: "js_value \<Rightarrow> bool" where
  "literal_input x = (case x of JString s \<Rightarrow> True | JNumber n \<Rightarrow> finite_number n)"

definition frac_value :: "string \<Rightarrow> rat" where
  "frac_value ds = of_nat (digits_val ds) / 10 ^ length ds"

section \<open>Concrete conversions\<close>

text \<open>
  C7: the scenarios of the specification. The numbers \<^verbatim>\<open>12.145e+3\<close>, \<^verbatim>\<open>12.145e-2\<close> and
  \<^verbatim>\<open>-0.0001\<close> have the shortest digits \<open>12145\<close>, \<open>12145\<close> and \<open>1\<close> with the decimal point
  at positions 5, 0 and -3; they convert to \<open>12145\<close>, \<open>0.12145\<close> and \<open>-0.0001\<close>. The strings
  \<open>1.2300\<close> and \<open>007.50\<close> convert to \<open>1.23\<close> and \<open>7.5\<close>, and the string
  \<open>not-a-number-string\<close> raises the invalid-number error.
\<close>

theorem concrete_scenarios:
  "Num2FracStr (JNumber (Finite False ''12145'' 5)) = Inr ''12145'' \<and>
   Num2FracStr (JNumber (Finite False ''12145'' 0)) = Inr ''0.12145'' \<and>
   Num2FracStr (JString ''1.2300'') = Inr ''1.23'' \<and>
   Num2FracStr (JNumber (Finite True ''1'' (- 3))) = Inr ''-0.0001'' \<and>
   Num2FracStr (JString ''007.50'') = Inr ''7.5'' \<and>
   Num2FracStr (JString ''not-a-number-string'')
     = Inl (Error ''Invalid Number: \"not-a-number-string\"'')"
  by code_simp

section \<open>What the regular expression captures\<close>

lemma is_zero_digit: "is_zero c \<Longrightarrow> is_digit c"
  by (simp add: is_zero_def is_digit_def)

lemma takeWhile_digits: "list_all is_digit (takeWhile is_digit r)"
  by (induction r) auto

lemma hd_dropWhile_not: "dropWhile P r \<noteq> [] \<Longrightarrow> \<not> P (hd (dropWhile P r))"
  by (induction r) auto

lemma group2_shape:
  "g = takeWhile is_digit (dropWhile is_zero r) \<Longrightarrow> list_all is_digit g \<and> (g = [] \<or> \<not> is_zero (hd g))"
proof -
  assume g: "g = takeWhile is_digit (dropWhile is_zero r)"
  have "g \<noteq> [] \<Longrightarrow> \<not> is_zero (hd g)"
  proof -
    assume ne: "g \<noteq> []"
    then have d: "dropWhile is_zero r \<noteq> []" using g by (cases "dropWhile is_zero r") simp_all
    have "hd g = hd (dropWhile is_zero r)" using ne g
      by (cases "dropWhile is_zero r") (auto split: if_splits)
    then show ?thesis using hd_dropWhile_not [OF d] by simp
  qed
  then show ?thesis using g takeWhile_digits by auto
qed

lemma strip_zeros_end_last: "strip_zeros_end ds = [] \<or> \<not> is_zero (last (strip_zeros_end ds))"
proof (cases "dropWhile is_zero (rev ds) = []")
  case True then show ?thesis by (simp add: strip_zeros_end_def)
next
  case False
  then show ?thesis using hd_dropWhile_not [OF False]
    by (simp add: strip_zeros_end_def last_rev)
qed

lemma strip_zeros_end_digits: "list_all is_digit ds \<Longrightarrow> list_all is_digit (strip_zeros_end ds)"
  unfolding strip_zeros_end_def list_all_iff by (auto dest: set_dropWhileD)

lemma match_fraction_shape:
  "match_fraction r = (Some f, r') \<Longrightarrow> list_all is_digit f \<and> (f = [] \<or> \<not> is_zero (last f))"
  unfolding match_fraction_def
  using strip_zeros_end_last strip_zeros_end_digits takeWhile_digits
  by (auto split: list.splits if_splits)

lemma regex_match_groups:
  assumes "regex_match s = Some m"
  shows "list_all is_digit (group2 m)" "group2 m = [] \<or> \<not> is_zero (hd (group2 m))"
    "group3 m = Some f \<Longrightarrow> list_all is_digit f \<and> (f = [] \<or> \<not> is_zero (last f))"
    "group1 m = [] \<or> group1 m = ''+'' \<or> group1 m = ''-''"
proof -
  obtain g1 r1 where a: "(case s of [] \<Rightarrow> ([], []) | c # t \<Rightarrow> if is_sign c then ([c], t) else ([], s)) = (g1, r1)"
    by fastforce
  obtain g3 r4 where b: "match_fraction (dropWhile is_digit (dropWhile is_zero r1)) = (g3, r4)"
    by fastforce
  from assms a b obtain g4 where m: "m = \<lparr>group1 = g1, group2 = takeWhile is_digit (dropWhile is_zero r1), group3 = g3, group4 = g4\<rparr>"
    by (auto simp: regex_match_def Let_def split: option.splits)
  show "list_all is_digit (group2 m)" "group2 m = [] \<or> \<not> is_zero (hd (group2 m))"
    using m group2_shape [OF refl, of r1] by auto
  show "group3 m = Some f \<Longrightarrow> list_all is_digit f \<and> (f = [] \<or> \<not> is_zero (last f))"
    using m b match_fraction_shape by auto
  show "group1 m = [] \<or> group1 m = ''+'' \<or> group1 m = ''-''"
    using m a by (auto simp: is_sign_def split: list.splits if_splits)
qed

lemma mantissa_shape:
  assumes "regex_match s = Some m"
  shows "list_all is_digit (mantissa_int m)"
    "mantissa_int m = [] \<or> \<not> is_zero (hd (mantissa_int m))"
    "list_all is_digit (mantissa_frac m)"
    "mantissa_frac m = [] \<or> \<not> is_zero (last (mantissa_frac m))"
  using regex_match_groups [OF assms]
  by (auto simp: mantissa_int_def mantissa_frac_def split: option.splits)

lemma not_digit_chars [simp]: "\<not> is_digit CHR ''.''" "\<not> is_digit CHR ''e''" "\<not> is_digit CHR ''E''"
  "\<not> is_digit CHR ''+''" "\<not> is_digit CHR ''-''"
  by (simp_all add: is_digit_def)

lemma exp_mark_not_digit: "is_exp_mark c \<Longrightarrow> \<not> is_digit c"
  by (auto simp: is_exp_mark_def)

lemma sign_not_digit: "is_sign c \<Longrightarrow> \<not> is_digit c"
  by (auto simp: is_sign_def)

lemma takeWhile_digits_append:
  "list_all is_digit ds \<Longrightarrow> r = [] \<or> \<not> is_digit (hd r) \<Longrightarrow> takeWhile is_digit (ds @ r) = ds"
  by (induction ds) (auto simp: takeWhile_eq_Nil_iff)

lemma dropWhile_digits_append:
  "list_all is_digit ds \<Longrightarrow> r = [] \<or> \<not> is_digit (hd r) \<Longrightarrow> dropWhile is_digit (ds @ r) = r"
  by (induction ds) (auto simp: dropWhile_eq_self_iff)

lemma dropWhile_zeros_append:
  "r = [] \<or> \<not> is_zero (hd r) \<Longrightarrow> dropWhile is_zero (ds @ r) = dropWhile is_zero ds @ r"
  by (induction ds) (auto simp: dropWhile_eq_self_iff)

lemma match_exponent_text:
  assumes "case ex of None \<Rightarrow> True
       | Some (mk, sg2, ds) \<Rightarrow> is_exp_mark mk \<and> is_sign_text sg2 \<and> ds \<noteq> [] \<and> list_all is_digit ds"
  shows "match_exponent (exponent_text ex) = Some (map_option (\<lambda>(mk, sg, ds). sg @ ds) ex)"
proof (cases ex)
  case None
  then show ?thesis by (simp add: match_exponent_def exponent_text_def)
next
  case (Some a)
  obtain mk sg ds where a: "a = (mk, sg, ds)" by (cases a)
  with Some assms have h: "is_exp_mark mk" "is_sign_text sg" "ds \<noteq> []" "list_all is_digit ds" by auto
  have nd: "\<not> is_sign (hd ds)" using h(3,4) sign_not_digit by (cases ds) auto
  show ?thesis using h nd Some a
    by (cases ds) (auto simp: match_exponent_def exponent_text_def is_sign_text_def is_sign_def)
qed

lemma exponent_text_start: 
  assumes "case ex of None \<Rightarrow> True
       | Some (mk, sg2, ds) \<Rightarrow> is_exp_mark mk \<and> is_sign_text sg2 \<and> ds \<noteq> [] \<and> list_all is_digit ds"
  shows "exponent_text ex = [] \<or> is_exp_mark (hd (exponent_text ex))"
  using assms by (auto simp: exponent_text_def split: option.splits)

lemma match_fraction_text:
  assumes "case fr of None \<Rightarrow> True | Some fp \<Rightarrow> list_all is_digit fp"
    and "r = [] \<or> is_exp_mark (hd r)"
  shows "match_fraction (fraction_text fr @ r) = (map_option strip_zeros_end fr, r)"
proof (cases fr)
  case None
  then show ?thesis using assms(2)
    by (cases r) (auto simp: match_fraction_def fraction_text_def is_exp_mark_def)
next
  case (Some fp)
  then have d: "list_all is_digit fp" using assms(1) by simp
  have nd: "r = [] \<or> \<not> is_digit (hd r)" using assms(2) exp_mark_not_digit by auto
  show ?thesis using Some takeWhile_digits_append [OF d nd] dropWhile_digits_append [OF d nd]
    by (simp add: match_fraction_def fraction_text_def)
qed

lemma regex_match_literal_text:
  assumes "literal_parts sg ip fr ex"
  shows "regex_match (literal_text sg ip fr ex)
       = Some \<lparr>group1 = sg, group2 = dropWhile is_zero ip, group3 = map_option strip_zeros_end fr,
               group4 = map_option (\<lambda>(mk, sg, ds). sg @ ds) ex\<rparr>"
proof -
  let ?rest = "fraction_text fr @ exponent_text ex"
  from assms have sg: "is_sign_text sg" and ip: "list_all is_digit ip"
    and fr: "case fr of None \<Rightarrow> True | Some fp \<Rightarrow> list_all is_digit fp"
    and ex: "case ex of None \<Rightarrow> True
       | Some (mk, sg2, ds) \<Rightarrow> is_exp_mark mk \<and> is_sign_text sg2 \<and> ds \<noteq> [] \<and> list_all is_digit ds"
    by (simp_all add: literal_parts_def)
  have st: "exponent_text ex = [] \<or> is_exp_mark (hd (exponent_text ex))"
    by (rule exponent_text_start [OF ex])
  have rest: "?rest = [] \<or> \<not> is_digit (hd ?rest)"
    using st exp_mark_not_digit by (cases fr) (auto simp: fraction_text_def)
  then have restz: "?rest = [] \<or> \<not> is_zero (hd ?rest)" using is_zero_digit by blast
  have nosign: "ip @ ?rest = [] \<or> \<not> is_sign (hd (ip @ ?rest))"
    using ip st by (cases ip; cases fr) (auto simp: fraction_text_def is_sign_def is_digit_def is_exp_mark_def)
  have first: "(case sg @ ip @ ?rest of [] \<Rightarrow> ([], []) | c # t \<Rightarrow> if is_sign c then ([c], t) else ([], sg @ ip @ ?rest))
       = (sg, ip @ ?rest)"
    using sg nosign by (auto simp: is_sign_text_def is_sign_def split: list.splits)
  have dz: "dropWhile is_zero (ip @ ?rest) = dropWhile is_zero ip @ ?rest"
    by (rule dropWhile_zeros_append [OF restz])
  have dig: "list_all is_digit (dropWhile is_zero ip)"
    using ip unfolding list_all_iff by (auto dest: set_dropWhileD)
  have g2: "takeWhile is_digit (dropWhile is_zero ip @ ?rest) = dropWhile is_zero ip"
    by (rule takeWhile_digits_append [OF dig rest])
  have r3: "dropWhile is_digit (dropWhile is_zero ip @ ?rest) = ?rest"
    by (rule dropWhile_digits_append [OF dig rest])
  have mf: "match_fraction ?rest = (map_option strip_zeros_end fr, exponent_text ex)"
    by (rule match_fraction_text [OF fr st])
  have me: "match_exponent (exponent_text ex) = Some (map_option (\<lambda>(mk, sg, ds). sg @ ds) ex)"
    by (rule match_exponent_text [OF ex])
  show ?thesis
    unfolding regex_match_def literal_text_def first
    by (simp add: dz g2 r3 mf me)
qed

lemma dropWhile_digit_zero: "dropWhile is_digit (dropWhile is_zero r) = dropWhile is_digit r"
  by (induction r) (auto simp: is_zero_digit)

lemma match_fraction_decompose:
  "match_fraction r = (g3, r4) \<Longrightarrow>
     \<exists>fr. (case fr of None \<Rightarrow> True | Some fp \<Rightarrow> list_all is_digit fp) \<and> r = fraction_text fr @ r4"
proof (cases "r \<noteq> [] \<and> hd r = CHR ''.''")
  case True
  assume a: "match_fraction r = (g3, r4)"
  from True obtain t where r: "r = CHR ''.'' # t" by (cases r) auto
  with a have "r4 = dropWhile is_digit t" by (simp add: match_fraction_def)
  then have "r = fraction_text (Some (takeWhile is_digit t)) @ r4"
    using r by (simp add: fraction_text_def)
  then show ?thesis using takeWhile_digits 
    by (intro exI [of _ "Some (takeWhile is_digit t)"]) simp
next
  case False
  assume a: "match_fraction r = (g3, r4)"
  with False have "r4 = r" by (cases r) (auto simp: match_fraction_def)
  then show ?thesis by (intro exI [of _ None]) (simp add: fraction_text_def)
qed

lemma match_exponent_decompose:
  "match_exponent r = Some g4 \<Longrightarrow>
     \<exists>ex. (case ex of None \<Rightarrow> True
       | Some (mk, sg2, ds) \<Rightarrow> is_exp_mark mk \<and> is_sign_text sg2 \<and> ds \<noteq> [] \<and> list_all is_digit ds)
       \<and> r = exponent_text ex"
proof (cases r)
  case Nil
  then show ?thesis by (intro exI [of _ None]) (simp add: exponent_text_def)
next
  case (Cons c t)
  assume a: "match_exponent r = Some g4"
  let ?ds = "case t of [] \<Rightarrow> [] | d # u \<Rightarrow> if is_sign d then u else t"
  from a Cons have c: "is_exp_mark c" and ds: "?ds \<noteq> []" "list_all is_digit ?ds"
    by (auto simp: match_exponent_def Let_def split: if_splits)
  obtain sg where sg: "is_sign_text sg" "t = sg @ ?ds"
  proof (cases t)
    case Nil
    then show ?thesis using that [of "[]"] by (simp add: is_sign_text_def)
  next
    case (Cons d u)
    then show ?thesis using that [of "[d]"] that [of "[]"]
      by (cases "is_sign d") (auto simp: is_sign_text_def is_sign_def)
  qed
  show ?thesis using c ds sg Cons
    by (intro exI [of _ "Some (c, sg, ?ds)"]) (simp add: exponent_text_def)
qed

lemma regex_match_decompose:
  assumes "regex_match s = Some m"
  shows "\<exists>sg ip fr ex. literal_parts sg ip fr ex \<and> s = literal_text sg ip fr ex"
proof -
  obtain g1 r1 where a: "(case s of [] \<Rightarrow> ([], []) | c # t \<Rightarrow> if is_sign c then ([c], t) else ([], s)) = (g1, r1)"
    by fastforce
  then have s: "s = g1 @ r1" and g1: "is_sign_text g1"
    by (auto simp: is_sign_text_def is_sign_def split: list.splits if_splits)
  obtain g3 r4 where b: "match_fraction (dropWhile is_digit r1) = (g3, r4)"
    by fastforce
  from assms a b obtain g4 where c: "match_exponent r4 = Some g4"
    by (auto simp: regex_match_def Let_def dropWhile_digit_zero split: option.splits)
  from match_fraction_decompose [OF b] obtain fr where
    fr: "case fr of None \<Rightarrow> True | Some fp \<Rightarrow> list_all is_digit fp" "dropWhile is_digit r1 = fraction_text fr @ r4"
    by blast
  from match_exponent_decompose [OF c] obtain ex where
    ex: "case ex of None \<Rightarrow> True
       | Some (mk, sg2, ds) \<Rightarrow> is_exp_mark mk \<and> is_sign_text sg2 \<and> ds \<noteq> [] \<and> list_all is_digit ds"
     "r4 = exponent_text ex"
    by blast
  have "r1 = takeWhile is_digit r1 @ dropWhile is_digit r1" by simp
  then have "s = literal_text g1 (takeWhile is_digit r1) fr ex"
    using s fr(2) ex(2) by (simp add: literal_text_def)
  moreover have "literal_parts g1 (takeWhile is_digit r1) fr ex"
    using g1 fr(1) ex(1) takeWhile_digits by (simp add: literal_parts_def)
  ultimately show ?thesis by blast
qed

lemma regex_match_iff_grammar: "(regex_match s \<noteq> None) = literal_grammar s"
  using regex_match_decompose regex_match_literal_text
  unfolding literal_grammar_def by fastforce

text \<open>
  C8: whenever the input matches, the integer digits taken from it do not start with a
  zero (so never with a zero followed by another digit), and the fraction digits, when
  there are any, do not end with a zero; both are digit strings.
\<close>

theorem parsed_literal_invariants:
  "regex_match s = Some m \<Longrightarrow>
     \<not> (\<exists>d t. mantissa_int m = CHR ''0'' # d # t \<and> is_digit d) \<and>
     (mantissa_int m = [] \<or> hd (mantissa_int m) \<noteq> CHR ''0'') \<and>
     (mantissa_frac m \<noteq> [] \<longrightarrow> last (mantissa_frac m) \<noteq> CHR ''0'') \<and>
     list_all is_digit (mantissa_int m) \<and> list_all is_digit (mantissa_frac m)"
  using mantissa_shape [of s m] by (auto simp: is_zero_def)

theorem parsed_literal_invariants_witness:
  "regex_match ''007.50'' = Some \<lparr>group1 = [], group2 = ''7'', group3 = Some ''5'', group4 = None\<rparr> \<and>
   hd (mantissa_int \<lparr>group1 = [], group2 = ''7'', group3 = Some ''5'', group4 = None\<rparr>) \<noteq> CHR ''0'' \<and>
   last (mantissa_frac \<lparr>group1 = [], group2 = ''7'', group3 = Some ''5'', group4 = None\<rparr>) \<noteq> CHR ''0''"
proof -
  have h: "regex_match ''007.50'' = Some \<lparr>group1 = [], group2 = ''7'', group3 = Some ''5'', group4 = None\<rparr>"
    by code_simp
  show ?thesis using h parsed_literal_invariants [OF h]
    by (simp add: mantissa_int_def mantissa_frac_def)
qed

section \<open>Doubles and the longest string\<close>

lemma max_string_length_bounds: "0 < max_string_length" "max_string_length < 2 ^ 52"
  by (simp_all add: max_string_length_def)

lemma ulp_bounds: "2 ^ 53 \<le> v \<Longrightarrow> 2 \<le> ulp v \<and> 2 ^ 52 * ulp v \<le> v"
proof (induction v rule: ulp.induct)
  case (1 v)
  have u: "ulp v = 2 * ulp (v div 2)" using "1.prems" by (simp add: ulp.simps [of v])
  show ?case
  proof (cases "v div 2 < 2 ^ 53")
    case True
    then have "ulp (v div 2) = 1" by (simp add: ulp.simps [of "v div 2"])
    then show ?thesis using u "1.prems" by simp
  next
    case False
    then have "2 \<le> ulp (v div 2) \<and> 2 ^ 52 * ulp (v div 2) \<le> v div 2"
      using "1.IH" "1.prems" by simp
    moreover have "2 * (v div 2) \<le> v" by simp
    ultimately show ?thesis using u by simp
  qed
qed

lemma round_magnitude_exact: "v \<le> 2 ^ 53 \<Longrightarrow> round_magnitude v = Some v"
  by (simp add: round_magnitude_def)

lemma round_magnitude_big:
  assumes "2 ^ 53 < v" "round_magnitude v = Some w"
  shows "2 ^ 53 \<le> w"
proof -
  define u where "u = ulp v"
  define q where "q = v div u"
  define q' where "q' = (if 2 * (v mod u) < u \<or> (2 * (v mod u) = u \<and> even q) then q else q + 1)"
  have ub: "2 \<le> u" "2 ^ 52 * u \<le> v" using ulp_bounds [of v] assms(1) by (simp_all add: u_def)
  have w: "w = q' * u"
    using assms by (auto simp: round_magnitude_def Let_def u_def q_def q'_def split: if_splits)
  have "2 ^ 52 \<le> q"
  proof -
    have "(2 ^ 52 * u) div u \<le> v div u" using ub by (intro zdiv_mono1) simp_all
    then show ?thesis using ub(1) by (simp add: q_def)
  qed
  moreover have "q \<le> q'" by (simp add: q'_def)
  ultimately have "2 ^ 52 \<le> q'" by simp
  then have "2 ^ 52 * 2 \<le> q' * u" using ub(1) by (intro mult_mono) simp_all
  then show ?thesis using w by simp
qed

lemma to_double_exact: "\<bar>v\<bar> \<le> 2 ^ 53 \<Longrightarrow> to_double v = Integer v"
  by (simp add: to_double_def round_magnitude_exact)

lemma to_double_ge:
  assumes "0 < t" "t \<le> 2 ^ 53" "t \<le> v"
  shows "to_double v = PlusInfinity \<or> (\<exists>w. to_double v = Integer w \<and> t \<le> w)"
proof (cases "v \<le> 2 ^ 53")
  case True
  then show ?thesis using assms to_double_exact [of v] by simp
next
  case False
  then have v: "2 ^ 53 < \<bar>v\<bar>" "\<not> v < 0" by simp_all
  show ?thesis
  proof (cases "round_magnitude \<bar>v\<bar>")
    case None
    then show ?thesis using v by (simp add: to_double_def)
  next
    case (Some w)
    then have "2 ^ 53 \<le> w" using round_magnitude_big [OF v(1)] by simp
    then show ?thesis using Some v assms(2) by (simp add: to_double_def)
  qed
qed

lemma to_double_le:
  assumes "0 < t" "t \<le> 2 ^ 53" "v \<le> - t"
  shows "to_double v = MinusInfinity \<or> (\<exists>w. to_double v = Integer w \<and> w \<le> - t)"
proof (cases "- (2 ^ 53) \<le> v")
  case True
  then show ?thesis using assms to_double_exact [of v] by simp
next
  case False
  then have v: "2 ^ 53 < \<bar>v\<bar>" "v < 0" by simp_all
  show ?thesis
  proof (cases "round_magnitude \<bar>v\<bar>")
    case None
    then show ?thesis using v by (simp add: to_double_def)
  next
    case (Some w)
    then have "2 ^ 53 \<le> w" using round_magnitude_big [OF v(1)] by simp
    then show ?thesis using Some v assms(2) by (simp add: to_double_def)
  qed
qed

lemma to_double_truthy: "v \<noteq> 0 \<Longrightarrow> truthy (to_double v)"
proof (cases "\<bar>v\<bar> \<le> 2 ^ 53")
  case True
  assume "v \<noteq> 0"
  then show ?thesis using True by (simp add: to_double_exact truthy_def)
next
  case False
  then have v: "2 ^ 53 < \<bar>v\<bar>" by simp
  show ?thesis
  proof (cases "round_magnitude \<bar>v\<bar>")
    case None
    then show ?thesis by (simp add: to_double_def truthy_def)
  next
    case (Some w)
    then have "2 ^ 53 \<le> w" using round_magnitude_big [OF v] by simp
    then show ?thesis using Some by (simp add: to_double_def truthy_def)
  qed
qed

lemma to_double_zero: "to_double 0 = Integer 0"
  by (simp add: to_double_exact)

lemma to_double_not_nan: "to_double v \<noteq> NotANumber"
  by (simp add: to_double_def split: option.splits)

section \<open>Errors\<close>

lemma Num2FracStr_string_fail:
  "regex_match s = None \<Longrightarrow> Num2FracStr (JString s) = Inl (invalid_number s)"
  by (simp add: Num2FracStr_def invalid_number_def)

lemma Num2FracStr_number_fail:
  "regex_match (String (JNumber n)) = None \<Longrightarrow> Num2FracStr (JNumber n) = Inr (String (JNumber n))"
  by (simp add: Num2FracStr_def)

lemma invalid_number_policy:
  "(Num2FracStr (JString s) = Inl (Error (''Invalid Number: \"'' @ s @ ''\"''))) = (\<not> literal_grammar s)"
  "Num2FracStr (JNumber n) \<noteq> Inl (Error msg)"
  "\<not> literal_grammar (String (JNumber n)) \<Longrightarrow> Num2FracStr (JNumber n) = Inr (String (JNumber n))"
proof -
  have a: "Num2FracStr x \<noteq> Inl (Error msg)" if "regex_match (String x) = Some m" for x m msg
    using that
    by (auto simp: Num2FracStr_def Let_def returnValue_def padEnd_def repeat0_def string_plus_def
        split: sum.splits if_splits number_value.splits)
  show "(Num2FracStr (JString s) = Inl (Error (''Invalid Number: \"'' @ s @ ''\"''))) = (\<not> literal_grammar s)"
    using a [of "JString s"] Num2FracStr_string_fail [of s] regex_match_iff_grammar [of s]
    by (cases "regex_match s") (auto simp: invalid_number_def)
  show "Num2FracStr (JNumber n) \<noteq> Inl (Error msg)"
    using a [of "JNumber n"] Num2FracStr_number_fail [of n]
    by (cases "regex_match (String (JNumber n))") auto
  show "\<not> literal_grammar (String (JNumber n)) \<Longrightarrow> Num2FracStr (JNumber n) = Inr (String (JNumber n))"
    using Num2FracStr_number_fail [of n] regex_match_iff_grammar [of "String (JNumber n)"] by simp
qed

text \<open>
  C3: the strings \<open>1e536870888\<close> and \<open>1e-1\<close> followed by 309 zeros are literals of the
  grammar, and the conversion raises on both: the first asks \<^verbatim>\<open>padEnd\<close> (line 100) for a
  string longer than the longest string, the second has the exponent
  \<^verbatim>\<open>Number(match[4]) = -Infinity\<close> and asks \<^verbatim>\<open>repeat\<close> (line 112) for infinitely many zeros.
\<close>

theorem range_error_on_literal:
  "literal_grammar ''1e536870888'' \<and>
   Num2FracStr (JString ''1e536870888'') = Inl RangeError \<and>
   literal_grammar (''1e-1'' @ replicate 309 CHR ''0'') \<and>
   Num2FracStr (JString (''1e-1'' @ replicate 309 CHR ''0'')) = Inl RangeError"
proof -
  have "regex_match ''1e536870888'' \<noteq> None"
    "regex_match (''1e-1'' @ replicate 309 CHR ''0'') \<noteq> None"
    by code_simp+
  then have g: "literal_grammar ''1e536870888''" "literal_grammar (''1e-1'' @ replicate 309 CHR ''0'')"
    using regex_match_iff_grammar by blast+
  have "Num2FracStr (JString ''1e536870888'') = Inl RangeError"
    "Num2FracStr (JString (''1e-1'' @ replicate 309 CHR ''0'')) = Inl RangeError"
    by code_simp+
  then show ?thesis using g by blast
qed

lemma literal_chars:
  assumes "literal_parts sg ip fr ex"
  shows "list_all (\<lambda>c. is_digit c \<or> is_sign c \<or> is_exp_mark c \<or> c = CHR ''.'') (literal_text sg ip fr ex)"
proof -
  have mono: "\<And>xs. list_all is_digit xs \<Longrightarrow> list_all (\<lambda>c. is_digit c \<or> is_sign c \<or> is_exp_mark c \<or> c = CHR ''.'') xs"
    by (simp add: list_all_iff)
  have sgn: "\<And>xs. is_sign_text xs \<Longrightarrow> list_all (\<lambda>c. is_digit c \<or> is_sign c \<or> is_exp_mark c \<or> c = CHR ''.'') xs"
    by (auto simp: is_sign_text_def is_sign_def)
  show ?thesis using assms mono sgn
    by (auto simp: literal_parts_def literal_text_def fraction_text_def exponent_text_def split: option.splits)
qed

lemma whitespace_not_literal_char:
  "is_whitespace c \<Longrightarrow> \<not> (is_digit c \<or> is_sign c \<or> is_exp_mark c \<or> c = CHR ''.'')"
  by (auto simp: is_whitespace_def is_digit_def is_sign_def is_exp_mark_def)

lemma whitespace_no_match:
  assumes "c \<in> set s" "is_whitespace c"
  shows "regex_match s = None"
proof (rule ccontr)
  assume "regex_match s \<noteq> None"
  then obtain m where "regex_match s = Some m" by auto
  from regex_match_decompose [OF this] obtain sg ip fr ex where
    "literal_parts sg ip fr ex" "s = literal_text sg ip fr ex" by blast
  with literal_chars [of sg ip fr ex] assms(1) 
  have "is_digit c \<or> is_sign c \<or> is_exp_mark c \<or> c = CHR ''.''"
    by (simp add: list_all_iff)
  then show False using whitespace_not_literal_char [OF assms(2)] by simp
qed

text \<open>
  C10: the match covers the whole string and nothing is trimmed: a literal with
  whitespace before or after it is rejected with the invalid-number error.
\<close>

theorem surrounding_whitespace_rejected:
  assumes "literal_grammar lit" "list_all is_whitespace ws1" "list_all is_whitespace ws2" "ws1 @ ws2 \<noteq> []"
  shows "Num2FracStr (JString (ws1 @ lit @ ws2)) = Inl (Error (''Invalid Number: \"'' @ ws1 @ lit @ ws2 @ ''\"''))"
proof -
  from assms(4) obtain c where c: "c \<in> set (ws1 @ ws2)" by (cases "ws1 @ ws2") auto
  then have w: "is_whitespace c" using assms(2,3) by (auto simp: list_all_iff)
  have "c \<in> set (ws1 @ lit @ ws2)" using c by auto
  from whitespace_no_match [OF this w] show ?thesis
    using Num2FracStr_string_fail [of "ws1 @ lit @ ws2"] by (simp add: invalid_number_def)
qed

theorem surrounding_whitespace_rejected_witness:
  "Num2FracStr (JString '' 1'') = Inl (Error ''Invalid Number: \" 1\"'') \<and>
   Num2FracStr (JString ''1 '') = Inl (Error ''Invalid Number: \"1 \"'')"
proof -
  have "regex_match ''1'' \<noteq> None" by code_simp
  then have g: "literal_grammar ''1''" using regex_match_iff_grammar [of "''1''"] by simp
  have w: "list_all is_whitespace '' ''" "list_all is_whitespace []" by (simp_all add: is_whitespace_def)
  show ?thesis
    using surrounding_whitespace_rejected [OF g w(1) w(2)] surrounding_whitespace_rejected [OF g w(2) w(1)]
    by simp
qed

lemma returnValue_empty: "returnValue [] [] e = Inr []"
  by (simp add: returnValue_def)

lemma strip_zeros_end_Nil: "strip_zeros_end [] = []"
  by (simp add: strip_zeros_end_def)

text \<open>
  C9: a string made of an optional sign, an optional decimal point and an optional
  exponent part, with no digit in its mantissa, is accepted and converted to \<open>0\<close>.
\<close>

theorem digitless_literal_is_zero:
  assumes "is_sign_text sg" "dot = [] \<or> dot = ''.''"
    and "ex = [] \<or> (\<exists>mk sg2 ds. ex = mk # sg2 @ ds \<and> is_exp_mark mk \<and> is_sign_text sg2 \<and> ds \<noteq> [] \<and> list_all is_digit ds)"
  shows "Num2FracStr (JString (sg @ dot @ ex)) = Inr ''0''"
proof -
  obtain fr where fr: "fr = None \<or> fr = Some []" "dot = fraction_text fr"
  proof (cases "dot = []")
    case True
    then show ?thesis using that [of None] by (simp add: fraction_text_def)
  next
    case False
    then show ?thesis using that [of "Some []"] assms(2) by (simp add: fraction_text_def)
  qed
  obtain ev where ev: "ex = exponent_text ev" "case ev of None \<Rightarrow> True
       | Some (mk, sg2, ds) \<Rightarrow> is_exp_mark mk \<and> is_sign_text sg2 \<and> ds \<noteq> [] \<and> list_all is_digit ds"
  proof (cases "ex = []")
    case True
    then show ?thesis using that [of None] by (simp add: exponent_text_def)
  next
    case False
    with assms(3) obtain mk sg2 ds where "ex = mk # sg2 @ ds" "is_exp_mark mk" "is_sign_text sg2" "ds \<noteq> []" "list_all is_digit ds"
      by blast
    then show ?thesis using that [of "Some (mk, sg2, ds)"] by (simp add: exponent_text_def)
  qed
  have parts: "literal_parts sg [] fr ev"
    using assms(1) fr(1) ev(2) by (auto simp: literal_parts_def)
  have lt: "sg @ dot @ ex = literal_text sg [] fr ev"
    using fr(2) ev(1) by (simp add: literal_text_def)
  have g3: "map_option strip_zeros_end fr = None \<or> map_option strip_zeros_end fr = Some []"
    using fr(1) by (auto simp: strip_zeros_end_Nil)
  show ?thesis
    unfolding lt Num2FracStr_def String.simps Let_def regex_match_literal_text [OF parts]
    using g3 by (auto simp: mantissa_int_def mantissa_frac_def returnValue_empty)
qed

theorem digitless_literal_is_zero_witness:
  "Num2FracStr (JString '''') = Inr ''0'' \<and> Num2FracStr (JString ''.'') = Inr ''0'' \<and>
   Num2FracStr (JString ''-'') = Inr ''0'' \<and> Num2FracStr (JString ''+'') = Inr ''0'' \<and>
   Num2FracStr (JString ''e5'') = Inr ''0'' \<and> Num2FracStr (JString ''-.e3'') = Inr ''0''"
proof -
  have e5: "\<exists>mk sg2 ds. ''e5'' = mk # sg2 @ ds \<and> is_exp_mark mk \<and> is_sign_text sg2 \<and> ds \<noteq> [] \<and> list_all is_digit ds"
    by (intro exI [of _ "CHR ''e''"] exI [of _ "[]"] exI [of _ "''5''"])
       (simp add: is_exp_mark_def is_sign_text_def is_digit_def)
  have e3: "\<exists>mk sg2 ds. ''e3'' = mk # sg2 @ ds \<and> is_exp_mark mk \<and> is_sign_text sg2 \<and> ds \<noteq> [] \<and> list_all is_digit ds"
    by (intro exI [of _ "CHR ''e''"] exI [of _ "[]"] exI [of _ "''3''"])
       (simp add: is_exp_mark_def is_sign_text_def is_digit_def)
  have s: "is_sign_text []" "is_sign_text ''-''" "is_sign_text ''+''" by (simp_all add: is_sign_text_def)
  show ?thesis
    using digitless_literal_is_zero [of "[]" "[]" "[]"] digitless_literal_is_zero [of "[]" "''.''" "[]"]
      digitless_literal_is_zero [of "''-''" "[]" "[]"] digitless_literal_is_zero [of "''+''" "[]" "[]"]
      digitless_literal_is_zero [of "[]" "[]" "''e5''"] digitless_literal_is_zero [of "''-''" "''.''" "''e3''"]
      e5 e3 s
    by simp
qed

section \<open>Moving the decimal point\<close>

lemma length_shifted_mantissa:
  "int (length (shifted_mantissa m sp)) =
     (if int (length m) \<le> sp then sp
      else if 0 < sp then int (length m) + 1
      else 2 - sp + int (length m))"
  by (simp add: shifted_mantissa_def)

lemma returnValue_plain:
  "\<not> truthy e \<Longrightarrow> returnValue ip fp e = Inr (if ip @ fp = [] then [] else fixed_point ip fp)"
  by (auto simp: returnValue_def fixed_point_def)

lemma padEnd_huge:
  assumes "int (length s) < max_string_length" "x = PlusInfinity \<or> (\<exists>w. x = Integer w \<and> 2 ^ 52 \<le> w)"
  shows "padEnd s x = Inl RangeError"
proof -
  have "2 ^ 52 \<le> ToLength x" using assms(2) by (auto simp: ToLength_def)
  then show ?thesis using assms(1) max_string_length_bounds(2) by (simp add: padEnd_def Let_def)
qed

lemma repeat0_huge:
  assumes "x = MinusInfinity \<or> (\<exists>w. x = Integer w \<and> w \<le> - (2 ^ 52))"
  shows "repeat0 (negate x) = Inl RangeError"
  using assms max_string_length_bounds(2) by (auto simp: repeat0_def negate_def)

lemma returnValue_huge:
  assumes "truthy e" "ip @ fp \<noteq> []" "int (length (ip @ fp)) < max_string_length"
    and "add_length (length ip) e = PlusInfinity \<or> (\<exists>w. add_length (length ip) e = Integer w \<and> 2 ^ 52 \<le> w)"
  shows "returnValue ip fp e = Inl RangeError"
proof -
  have "length_le (length (ip @ fp)) (add_length (length ip) e)"
    using assms(3,4) max_string_length_bounds(2) by (auto simp: length_le_def)
  then show ?thesis
    using assms(1,2) padEnd_huge [OF assms(3,4)] by (auto simp: returnValue_def Let_def)
qed

lemma returnValue_huge_negative:
  assumes "truthy e" "ip @ fp \<noteq> []"
    and "add_length (length ip) e = MinusInfinity \<or> (\<exists>w. add_length (length ip) e = Integer w \<and> w \<le> - (2 ^ 52))"
  shows "returnValue ip fp e = Inl RangeError"
proof -
  have "\<not> length_le (length (ip @ fp)) (add_length (length ip) e)"
    "\<not> positive (add_length (length ip) e)"
    using assms(3) by (auto simp: length_le_def positive_def)
  then show ?thesis
    using assms(1,2) repeat0_huge [OF assms(3)] by (auto simp: returnValue_def Let_def)
qed

lemma slice_prefix: "0 < n \<Longrightarrow> n < int (length s) \<Longrightarrow> slice s (Integer 0) (Integer n) = take (nat n) s"
  by (auto simp: slice_def relative_index_def slice_index_def min_def)

lemma slice_from_suffix: "0 < n \<Longrightarrow> n < int (length s) \<Longrightarrow> slice_from s (Integer n) = drop (nat n) s"
  by (auto simp: slice_from_def relative_index_def slice_index_def min_def)

lemma returnValue_exact:
  assumes "truthy e" "ip @ fp \<noteq> []" "int (length (ip @ fp)) < max_string_length"
    and "add_length (length ip) e = Integer sp" "\<bar>sp\<bar> \<le> 2 ^ 53"
  shows "returnValue ip fp e =
     (if int (length (shifted_mantissa (ip @ fp) sp)) \<le> max_string_length
      then Inr (shifted_mantissa (ip @ fp) sp) else Inl RangeError)"
proof -
  let ?m = "ip @ fp"
  have len: "0 < int (length ip) + int (length fp)" using assms(2) by (cases ip) auto
  have lim: "max_string_length < 2 ^ 53 - 1" using max_string_length_bounds(2) by simp
  consider (same) "int (length ?m) = sp" | (pad) "int (length ?m) < sp"
    | (mid) "0 < sp" "sp < int (length ?m)" | (low) "sp \<le> 0"
    by linarith
  then show ?thesis
  proof cases
    case same
    then have "padEnd ?m (Integer sp) = Inr ?m" by (simp add: padEnd_def ToLength_def Let_def)
    moreover have "shifted_mantissa ?m sp = ?m" using same by (simp add: shifted_mantissa_def)
    ultimately show ?thesis
      using assms(1,2,3,4) len same by (auto simp: returnValue_def Let_def length_le_def)
  next
    case pad
    have tl: "ToLength (Integer sp) = min sp (2 ^ 53 - 1)" using pad by (simp add: ToLength_def)
    have sh: "shifted_mantissa ?m sp = ?m @ replicate (nat (sp - int (length ?m))) CHR ''0''"
      using pad by (simp add: shifted_mantissa_def)
    have ls: "int (length (shifted_mantissa ?m sp)) = sp"
      using pad by (simp add: length_shifted_mantissa)
    have "padEnd ?m (Integer sp) = (if sp \<le> max_string_length then Inr (shifted_mantissa ?m sp) else Inl RangeError)"
    proof (cases "sp \<le> max_string_length")
      case True
      then have "min sp (2 ^ 53 - 1) = sp" using lim by simp
      then show ?thesis using True pad sh unfolding padEnd_def Let_def tl by simp
    next
      case False
      then have "max_string_length < min sp (2 ^ 53 - 1)" using lim by simp
      moreover have "\<not> min sp (2 ^ 53 - 1) \<le> int (length ?m)" using pad assms(3) lim by simp
      ultimately show ?thesis using False unfolding padEnd_def Let_def tl by simp
    qed
    then show ?thesis
      using assms(1,2,4) len pad ls by (auto simp: returnValue_def Let_def length_le_def)
  next
    case mid
    have "shifted_mantissa ?m sp = take (nat sp) ?m @ ''.'' @ drop (nat sp) ?m"
      using mid by (simp add: shifted_mantissa_def)
    moreover have "int (length (shifted_mantissa ?m sp)) \<le> max_string_length"
      using mid assms(3) by (simp add: length_shifted_mantissa)
    ultimately show ?thesis
      using assms(1,2,4) len mid slice_prefix [OF mid] slice_from_suffix [OF mid]
      by (auto simp: returnValue_def Let_def length_le_def positive_def)
  next
    case low
    have sh: "shifted_mantissa ?m sp = ''0.'' @ replicate (nat (- sp)) CHR ''0'' @ ?m"
      using low len by (simp add: shifted_mantissa_def)
    have ls: "int (length (shifted_mantissa ?m sp)) = 2 - sp + int (length ?m)"
      using low len by (simp add: length_shifted_mantissa)
    have br: "\<not> length_le (length ?m) (Integer sp)" "\<not> positive (Integer sp)"
      using low len by (auto simp: length_le_def positive_def)
    have rv: "returnValue ip fp e =
        (case repeat0 (Integer (- sp)) of Inl err \<Rightarrow> Inl err
         | Inr zeros \<Rightarrow> (case string_plus ''0.'' zeros of Inl err \<Rightarrow> Inl err
                          | Inr front \<Rightarrow> string_plus front ?m))"
      using assms(1,2,4) len br by (auto simp: returnValue_def Let_def negate_def)
    show ?thesis
    proof (cases "2 - sp + int (length ?m) \<le> max_string_length")
      case True
      then have "repeat0 (Integer (- sp)) = Inr (replicate (nat (- sp)) CHR ''0'')"
        using low by (simp add: repeat0_def)
      moreover have "string_plus ''0.'' (replicate (nat (- sp)) CHR ''0'') = Inr (''0.'' @ replicate (nat (- sp)) CHR ''0'')"
        using True low by (simp add: string_plus_def)
      moreover have "string_plus (''0.'' @ replicate (nat (- sp)) CHR ''0'') ?m = Inr (''0.'' @ replicate (nat (- sp)) CHR ''0'' @ ?m)"
        using True low by (simp add: string_plus_def)
      ultimately show ?thesis using rv sh ls True by simp
    next
      case False
      have "returnValue ip fp e = Inl RangeError"
      proof (cases "- sp \<le> max_string_length")
        case n: False
        then show ?thesis using rv low by (simp add: repeat0_def)
      next
        case n: True
        then have r: "repeat0 (Integer (- sp)) = Inr (replicate (nat (- sp)) CHR ''0'')"
          using low by (simp add: repeat0_def)
        show ?thesis
        proof (cases "2 - sp \<le> max_string_length")
          case False
          then show ?thesis using rv r low by (simp add: string_plus_def)
        next
          case True
          then have "string_plus ''0.'' (replicate (nat (- sp)) CHR ''0'') = Inr (''0.'' @ replicate (nat (- sp)) CHR ''0'')"
            using low by (simp add: string_plus_def)
          moreover have "string_plus (''0.'' @ replicate (nat (- sp)) CHR ''0'') ?m = Inl RangeError"
            using \<open>\<not> 2 - sp + int (length ?m) \<le> max_string_length\<close> low by (simp add: string_plus_def)
          ultimately show ?thesis using rv r by simp
        qed
      qed
      then show ?thesis using False ls by simp
    qed
  qed
qed

lemma returnValue_to_double:
  assumes "e \<noteq> 0" "ip @ fp \<noteq> []" "int (length (ip @ fp)) < max_string_length"
  shows "returnValue ip fp (to_double e) =
     (if int (length (shifted_mantissa (ip @ fp) (int (length ip) + e))) \<le> max_string_length
      then Inr (shifted_mantissa (ip @ fp) (int (length ip) + e)) else Inl RangeError)"
proof -
  let ?m = "ip @ fp" and ?sp = "int (length ip) + e"
  have t: "truthy (to_double e)" by (rule to_double_truthy [OF assms(1)])
  have lim: "max_string_length < 2 ^ 52" by (rule max_string_length_bounds(2))
  have li: "int (length ip) \<le> int (length ?m)" by simp
  consider (exact) "\<bar>e\<bar> \<le> 2 ^ 53" "\<bar>?sp\<bar> \<le> 2 ^ 53"
    | (up) "0 < e" "2 ^ 53 < e \<or> 2 ^ 53 < ?sp"
    | (down) "e < - (2 ^ 53)"
  proof (cases "0 < e")
    case True
    show ?thesis
    proof (cases "2 ^ 53 < e \<or> 2 ^ 53 < ?sp")
      case b: True
      then show ?thesis using up True by blast
    next
      case b: False
      then have "\<bar>e\<bar> \<le> 2 ^ 53" "\<bar>?sp\<bar> \<le> 2 ^ 53" using True by simp_all
      then show ?thesis using exact by blast
    qed
  next
    case False
    then have neg: "e < 0" using assms(1) by simp
    show ?thesis
    proof (cases "e < - (2 ^ 53)")
      case True
      then show ?thesis using down by blast
    next
      case b: False
      then have "\<bar>e\<bar> \<le> 2 ^ 53" "\<bar>?sp\<bar> \<le> 2 ^ 53" using neg li assms(3) lim by simp_all
      then show ?thesis using exact by blast
    qed
  qed
  then show ?thesis
  proof cases
    case exact
    have "add_length (length ip) (to_double e) = Integer ?sp"
      using exact by (simp add: to_double_exact add_length_def)
    from returnValue_exact [OF t assms(2,3) this exact(2)] show ?thesis .
  next
    case up
    then have sp: "2 ^ 53 < ?sp" by auto
    have big: "add_length (length ip) (to_double e) = PlusInfinity
        \<or> (\<exists>w. add_length (length ip) (to_double e) = Integer w \<and> 2 ^ 52 \<le> w)"
    proof (cases "e \<le> 2 ^ 53")
      case True
      then have "to_double e = Integer e" using up(1) by (simp add: to_double_exact)
      then show ?thesis using to_double_ge [of "2 ^ 52" ?sp] sp by (simp add: add_length_def)
    next
      case False
      then consider "to_double e = PlusInfinity" | w where "to_double e = Integer w" "2 ^ 53 \<le> w"
        using to_double_ge [of "2 ^ 53" e] by auto
      then show ?thesis
      proof cases
        case 1
        then show ?thesis by (simp add: add_length_def)
      next
        case 2
        then show ?thesis using to_double_ge [of "2 ^ 52" "int (length ip) + w"] by (simp add: add_length_def)
      qed
    qed
    have "\<not> int (length (shifted_mantissa ?m ?sp)) \<le> max_string_length"
      using sp assms(3) lim unfolding length_shifted_mantissa by simp
    then show ?thesis using returnValue_huge [OF t assms(2,3) big] by simp
  next
    case down
    then consider "to_double e = MinusInfinity" | w where "to_double e = Integer w" "w \<le> - (2 ^ 53)"
      using to_double_le [of "2 ^ 53" e] by auto
    then have big: "add_length (length ip) (to_double e) = MinusInfinity
        \<or> (\<exists>w. add_length (length ip) (to_double e) = Integer w \<and> w \<le> - (2 ^ 52))"
    proof cases
      case 1
      then show ?thesis by (simp add: add_length_def)
    next
      case 2
      have "int (length ip) + w \<le> - (2 ^ 52)" using 2(2) li assms(3) lim by simp
      then show ?thesis using 2(1) to_double_le [of "2 ^ 52" "int (length ip) + w"] by (simp add: add_length_def)
    qed
    have "?sp \<le> 0" using down li assms(3) lim by simp
    then have "\<not> int (length (shifted_mantissa ?m ?sp)) \<le> max_string_length"
      using down li assms(3) lim unfolding length_shifted_mantissa by simp
    then show ?thesis using returnValue_huge_negative [OF t assms(2) big] by simp
  qed
qed

lemma add_length_truthy_cases:
  assumes "truthy e"
  obtains (int) k where "add_length n e = Integer k" | (pinf) "add_length n e = PlusInfinity"
    | (ninf) "add_length n e = MinusInfinity"
  using assms to_double_not_nan [of "int n + k" for k]
  by (cases e; cases "add_length n e") (auto simp: add_length_def truthy_def)

lemma returnValue_shape:
  assumes "returnValue ip fp e = Inr rv"
  shows "(ip @ fp = [] \<and> rv = []) \<or>
    (ip @ fp \<noteq> [] \<and> (\<exists>sp. rv = shifted_mantissa (ip @ fp) sp) )"
proof (cases "ip @ fp = []")
  case True
  then show ?thesis using assms by (simp add: returnValue_empty)
next
  case False
  let ?m = "ip @ fp"
  have len: "0 < int (length ip) + int (length fp)" using False by (cases ip) auto
  show ?thesis
  proof (cases "truthy e")
    case nt: False
    have "rv = fixed_point ip fp" using returnValue_plain [OF nt, of ip fp] assms False by auto
    moreover have "fixed_point ip fp = shifted_mantissa ?m (int (length ip))"
      using False by (cases "fp = []"; cases "ip = []") (simp_all add: fixed_point_def shifted_mantissa_def)
    ultimately show ?thesis using False by blast
  next
    case t: True
    let ?x = "add_length (length ip) e"
    have rv: "returnValue ip fp e =
       (if length_le (length ?m) ?x then padEnd ?m ?x
        else if positive ?x then Inr (slice ?m (Integer 0) ?x @ ''.'' @ slice_from ?m ?x)
        else (case repeat0 (negate ?x) of Inl err \<Rightarrow> Inl err
              | Inr zeros \<Rightarrow> (case string_plus ''0.'' zeros of Inl err \<Rightarrow> Inl err
                               | Inr front \<Rightarrow> string_plus front ?m)))"
      using t False len by (auto simp: returnValue_def Let_def)
    have "\<exists>sp. rv = shifted_mantissa ?m sp"
    proof (cases "length_le (length ?m) ?x")
      case True
      then have p: "padEnd ?m ?x = Inr rv" using rv assms by simp
      show ?thesis
      proof (cases "ToLength ?x \<le> int (length ?m)")
        case True
        then have "rv = ?m" using p by (simp add: padEnd_def Let_def)
        then have "rv = shifted_mantissa ?m (int (length ?m))" by (simp add: shifted_mantissa_def)
        then show ?thesis by blast
      next
        case False
        then have "rv = ?m @ replicate (nat (ToLength ?x - int (length ?m))) CHR ''0''"
          using p by (simp add: padEnd_def Let_def split: if_splits)
        then have "rv = shifted_mantissa ?m (ToLength ?x)" using False by (simp add: shifted_mantissa_def)
        then show ?thesis by blast
      qed
    next
      case nle: False
      from t show ?thesis
      proof (cases rule: add_length_truthy_cases [of e "length ip"])
        case (int k)
        show ?thesis
        proof (cases "0 < k")
          case True
          then have k: "0 < k" "k < int (length ?m)" using nle int by (simp_all add: length_le_def)
          have "rv = take (nat k) ?m @ ''.'' @ drop (nat k) ?m"
            using rv assms nle int True slice_prefix [OF k] slice_from_suffix [OF k]
            by (simp add: positive_def)
          then have "rv = shifted_mantissa ?m k" using k by (simp add: shifted_mantissa_def)
          then show ?thesis by blast
        next
          case False
          then have r: "(case repeat0 (Integer (- k)) of Inl err \<Rightarrow> Inl err
              | Inr zeros \<Rightarrow> (case string_plus ''0.'' zeros of Inl err \<Rightarrow> Inl err
                               | Inr front \<Rightarrow> string_plus front ?m)) = Inr rv"
            using rv assms nle int by (simp add: positive_def negate_def)
          then have "rv = ''0.'' @ replicate (nat (- k)) CHR ''0'' @ ?m"
            by (auto simp: repeat0_def string_plus_def split: if_splits sum.splits)
          then have "rv = shifted_mantissa ?m k" using False len by (simp add: shifted_mantissa_def)
          then show ?thesis by blast
        qed
      next
        case pinf
        then show ?thesis using nle by (simp add: length_le_def)
      next
        case ninf
        then show ?thesis using rv assms nle by (simp add: positive_def negate_def repeat0_def)
      qed
    qed
    then show ?thesis using False by blast
  qed
qed

text \<open>
  C2: with a nonzero exponent \<open>e\<close> (held as the double \<^verbatim>\<open>Number\<close> makes of it) and a
  non-empty mantissa, \<^verbatim>\<open>returnValue\<close> before the two replacements is the mantissa shifted
  as the specification says: padded with zeros, split by a decimal point, or put behind
  \<open>0.\<close> and \<open>-splitPoint\<close> zeros. That holds whenever the shifted string is no longer than
  the longest string; when it is longer, line 100 or 112 throws and there is no
  \<^verbatim>\<open>returnValue\<close>.
\<close>

theorem reconstruction_with_exponent:
  assumes "e \<noteq> 0" "ip @ fp \<noteq> []" "int (length (ip @ fp)) < max_string_length"
  shows "returnValue ip fp (to_double e) =
     (if int (length (shifted_mantissa (ip @ fp) (int (length ip) + e))) \<le> max_string_length
      then Inr (shifted_mantissa (ip @ fp) (int (length ip) + e)) else Inl RangeError)"
  using assms by (rule returnValue_to_double)

theorem reconstruction_with_exponent_witness:
  "returnValue ''12'' ''145'' (to_double 4) = Inr ''121450'' \<and>
   returnValue ''12'' ''145'' (to_double 1) = Inr ''121.45'' \<and>
   returnValue ''12'' ''145'' (to_double (- 4)) = Inr ''0.0012145'' \<and>
   returnValue ''1'' [] (to_double 536870888) = Inl RangeError"
proof -
  have h: "(4::int) \<noteq> 0" "(1::int) \<noteq> 0" "(- 4::int) \<noteq> 0" "(536870888::int) \<noteq> 0"
    "''12'' @ ''145'' \<noteq> []" "''1'' @ [] \<noteq> []"
    "int (length (''12'' @ ''145'')) < max_string_length" "int (length (''1'' @ [])) < max_string_length"
    by (simp_all add: max_string_length_def)
  show ?thesis
    using reconstruction_with_exponent [OF h(1) h(5) h(7)] reconstruction_with_exponent [OF h(2) h(5) h(7)]
      reconstruction_with_exponent [OF h(3) h(5) h(7)] reconstruction_with_exponent [OF h(4) h(6) h(8)]
    by (simp add: shifted_mantissa_def max_string_length_def numeral_2_eq_2)
qed

section \<open>The two replacements on a fixed-point string\<close>

lemma strip_leading_digits:
  "list_all is_digit ds \<Longrightarrow> ds \<noteq> [] \<Longrightarrow>
     strip_leading ds = (if dropWhile is_zero ds = [] then ''0'' else dropWhile is_zero ds)"
proof (induction ds)
  case Nil
  then show ?case by simp
next
  case (Cons c t)
  show ?case
  proof (cases t)
    case Nil
    then show ?thesis by (simp add: is_zero_def)
  next
    case (Cons d u)
    then have "d \<noteq> CHR ''.''" using Cons.prems(1) by (auto simp: is_digit_def)
    then show ?thesis using Cons Cons.IH Cons.prems by (auto simp: is_zero_def)
  qed
qed

lemma strip_leading_point:
  "list_all is_digit ds \<Longrightarrow> ds \<noteq> [] \<Longrightarrow>
     strip_leading (ds @ CHR ''.'' # r)
       = (if dropWhile is_zero ds = [] then ''0'' else dropWhile is_zero ds) @ CHR ''.'' # r"
proof (induction ds)
  case Nil
  then show ?case by simp
next
  case (Cons c t)
  show ?case
  proof (cases t)
    case Nil
    then show ?thesis by (simp add: is_zero_def)
  next
    case (Cons d u)
    then have "d \<noteq> CHR ''.''" using Cons.prems(1) by (auto simp: is_digit_def)
    then show ?thesis using Cons Cons.IH Cons.prems by (auto simp: is_zero_def)
  qed
qed

lemma strip_trailing_no_point: "CHR ''.'' \<notin> set s \<Longrightarrow> strip_trailing s = s"
  by (induction s) auto

lemma digits_no_point: "list_all is_digit ds \<Longrightarrow> CHR ''.'' \<notin> set ds"
proof
  assume "list_all is_digit ds" "CHR ''.'' \<in> set ds"
  then show False unfolding list_all_iff using not_digit_chars(1) by blast
qed

lemma strip_zeros_end_all_zero: "(strip_zeros_end ds = []) = list_all is_zero ds"
  by (simp add: strip_zeros_end_def dropWhile_eq_Nil_conv list_all_iff)

lemma strip_zeros_end_id: "ds = [] \<or> \<not> is_zero (last ds) \<Longrightarrow> strip_zeros_end ds = ds"
proof -
  assume a: "ds = [] \<or> \<not> is_zero (last ds)"
  have "dropWhile is_zero (rev ds) = rev ds"
  proof (cases "rev ds")
    case Nil
    then show ?thesis by simp
  next
    case (Cons c t)
    then have "ds \<noteq> []" by auto
    then have "last ds = c" using Cons hd_rev [of ds] by simp
    then show ?thesis using a \<open>ds \<noteq> []\<close> Cons by simp
  qed
  then show ?thesis by (simp add: strip_zeros_end_def)
qed

lemma strip_trailing_fraction:
  assumes "list_all is_digit fp" "fp \<noteq> []"
  shows "strip_trailing (CHR ''.'' # fp)
       = (if strip_zeros_end fp = [] then [] else CHR ''.'' # strip_zeros_end fp)"
proof (cases "is_zero (last fp)")
  case True
  then show ?thesis using assms by (simp add: strip_zeros_end_all_zero)
next
  case False
  then have "strip_zeros_end fp = fp" using strip_zeros_end_id by blast
  then show ?thesis
    using False assms strip_trailing_no_point [OF digits_no_point [OF assms(1)]] by simp
qed

lemma strip_trailing_point:
  assumes "CHR ''.'' \<notin> set ip" "list_all is_digit fp" "fp \<noteq> []"
  shows "strip_trailing (ip @ CHR ''.'' # fp)
       = ip @ (if strip_zeros_end fp = [] then [] else CHR ''.'' # strip_zeros_end fp)"
  using assms(1)
proof (induction ip)
  case Nil
  then show ?case using strip_trailing_fraction [OF assms(2,3)] by simp
next
  case (Cons c t)
  then show ?case by simp
qed

lemma dropWhile_zero_digits: "list_all is_digit ds \<Longrightarrow> list_all is_digit (dropWhile is_zero ds)"
  unfolding list_all_iff by (auto dest: set_dropWhileD)

lemma strip_leading_fixed_point:
  assumes "list_all is_digit ip"
  shows "strip_leading (fixed_point ip fp) = fixed_point (dropWhile is_zero ip) fp"
proof -
  define i where "i = (if ip = [] then ''0'' else ip)"
  define d where "d = (if dropWhile is_zero ip = [] then ''0'' else dropWhile is_zero ip)"
  have i: "list_all is_digit i" "i \<noteq> []" using assms by (auto simp: i_def is_digit_def)
  have di: "(if dropWhile is_zero i = [] then ''0'' else dropWhile is_zero i) = d"
    by (auto simp: i_def d_def is_zero_def)
  have l: "fixed_point ip fp = i @ (if fp = [] then [] else CHR ''.'' # fp)"
    by (simp add: fixed_point_def i_def)
  have r: "fixed_point (dropWhile is_zero ip) fp = d @ (if fp = [] then [] else CHR ''.'' # fp)"
    unfolding fixed_point_def d_def by (rule refl)
  show ?thesis
  proof (cases "fp = []")
    case True
    have "strip_leading i = d" using strip_leading_digits [OF i] di by simp
    then show ?thesis unfolding l r using True by simp
  next
    case False
    have "strip_leading (i @ CHR ''.'' # fp) = d @ CHR ''.'' # fp"
      using strip_leading_point [OF i, of fp] di by simp
    then show ?thesis unfolding l r using False by simp
  qed
qed

lemma strip_trailing_fixed_point:
  assumes "list_all is_digit ip" "list_all is_digit fp"
  shows "strip_trailing (fixed_point ip fp) = fixed_point ip (strip_zeros_end fp)"
proof -
  define i where "i = (if ip = [] then ''0'' else ip)"
  have i: "CHR ''.'' \<notin> set i" using digits_no_point [OF assms(1)] by (simp add: i_def)
  have l: "fixed_point ip fp = i @ (if fp = [] then [] else CHR ''.'' # fp)"
    by (simp add: fixed_point_def i_def)
  have r: "fixed_point ip (strip_zeros_end fp)
         = i @ (if strip_zeros_end fp = [] then [] else CHR ''.'' # strip_zeros_end fp)"
    unfolding fixed_point_def i_def by (rule refl)
  show ?thesis
  proof (cases "fp = []")
    case True
    then show ?thesis unfolding l r using strip_trailing_no_point [OF i]
      by (simp add: strip_zeros_end_def)
  next
    case False
    show ?thesis unfolding l r using strip_trailing_point [OF i assms(2) False] False by simp
  qed
qed

lemma normalise_fixed_point:
  assumes "list_all is_digit ip" "list_all is_digit fp"
  shows "strip_trailing (strip_leading (fixed_point ip fp))
       = fixed_point (dropWhile is_zero ip) (strip_zeros_end fp)"
  using strip_leading_fixed_point [OF assms(1), of fp]
    strip_trailing_fixed_point [OF dropWhile_zero_digits [OF assms(1)] assms(2)]
  by simp

section \<open>The output as a canonical fixed-point string\<close>

lemma shift_parts_zero: "shift_parts ip fp 0 = (ip, fp)"
  by (cases "fp = []"; cases "ip = []") (simp_all add: shift_parts_def Let_def)

lemma shifted_mantissa_split:
  assumes "m \<noteq> []"
  shows "shifted_mantissa m sp
       = (case (if int (length m) \<le> sp then (m @ replicate (nat (sp - int (length m))) CHR ''0'', [])
                else if 0 < sp then (take (nat sp) m, drop (nat sp) m)
                else ([], replicate (nat (- sp)) CHR ''0'' @ m))
          of (i0, f0) \<Rightarrow> fixed_point i0 f0)"
proof -
  consider (pad) "int (length m) \<le> sp" | (mid) "0 < sp" "sp < int (length m)" | (low) "sp \<le> 0"
    by linarith
  then show ?thesis
  proof cases
    case pad
    then show ?thesis using assms by (simp add: shifted_mantissa_def fixed_point_def)
  next
    case mid
    then have "take (nat sp) m \<noteq> []" "drop (nat sp) m \<noteq> []" using assms by auto
    then show ?thesis using mid by (simp add: shifted_mantissa_def fixed_point_def)
  next
    case low
    then show ?thesis using assms by (simp add: shifted_mantissa_def fixed_point_def)
  qed
qed

lemma shifted_mantissa_fixed_point:
  assumes "ip @ fp \<noteq> []"
  shows "shifted_mantissa (ip @ fp) (int (length ip) + e)
       = (case shift_parts ip fp e of (i0, f0) \<Rightarrow> fixed_point i0 f0)"
  unfolding shifted_mantissa_split [OF assms] shift_parts_def Let_def by (rule refl)

lemma returnValue_canonical:
  assumes "returnValue ip fp e = Inr rv" "ip @ fp \<noteq> []"
  shows "\<exists>k. rv = (case shift_parts ip fp k of (i0, f0) \<Rightarrow> fixed_point i0 f0)"
proof -
  obtain sp where "rv = shifted_mantissa (ip @ fp) sp"
    using returnValue_shape [OF assms(1)] assms(2) by blast
  then have "rv = shifted_mantissa (ip @ fp) (int (length ip) + (sp - int (length ip)))" by simp
  then show ?thesis
    unfolding shifted_mantissa_fixed_point [OF assms(2)] by blast
qed

lemma fixed_point_not_empty: "fixed_point ip fp \<noteq> []"
  by (simp add: fixed_point_def)

lemma replicate_zero_digits: "list_all is_digit (replicate k CHR ''0'')"
  by (simp add: list_all_iff is_digit_def)

lemma shift_parts_digits:
  assumes "list_all is_digit ip" "list_all is_digit fp" "shift_parts ip fp e = (i0, f0)"
  shows "list_all is_digit i0 \<and> list_all is_digit f0"
proof -
  have m: "list_all is_digit (ip @ fp)" using assms(1,2) by simp
  have t: "\<And>k. list_all is_digit (take k (ip @ fp))" "\<And>k. list_all is_digit (drop k (ip @ fp))"
    using m unfolding list_all_iff by (auto dest: in_set_takeD in_set_dropD)
  show ?thesis
    using assms(3) m t replicate_zero_digits
    by (auto simp: shift_parts_def Let_def split: if_splits)
qed

lemma string_plus_Inr: "string_plus a b = Inr c \<Longrightarrow> c = a @ b \<and> int (length c) \<le> max_string_length"
  by (auto simp: string_plus_def split: if_splits)

lemma Num2FracStr_matched:
  assumes "regex_match (String x) = Some m" "Num2FracStr x = Inr out"
  shows "(mantissa_int m @ mantissa_frac m = [] \<and> out = ''0'') \<or>
    (mantissa_int m @ mantissa_frac m \<noteq> [] \<and> int (length out) \<le> max_string_length \<and>
     (\<exists>k. out = sign m @ (case canonical_parts (mantissa_int m) (mantissa_frac m) k
                            of (i, f) \<Rightarrow> fixed_point i f)))"
proof -
  let ?ip = "mantissa_int m" and ?fp = "mantissa_frac m"
  obtain rv where rv: "returnValue ?ip ?fp (exponent m) = Inr rv"
    and out: "(if rv \<noteq> [] then string_plus (sign m) (strip_trailing (strip_leading rv)) else Inr ''0'') = Inr out"
    using assms by (auto simp: Num2FracStr_def split: sum.splits)
  show ?thesis
  proof (cases "?ip @ ?fp = []")
    case True
    then have "rv = []" using rv returnValue_shape [OF rv] by blast
    then show ?thesis using out True by simp
  next
    case False
    obtain k where k: "rv = (case shift_parts ?ip ?fp k of (i0, f0) \<Rightarrow> fixed_point i0 f0)"
      using returnValue_canonical [OF rv False] by blast
    obtain i0 f0 where sh: "shift_parts ?ip ?fp k = (i0, f0)" by fastforce
    have d: "list_all is_digit i0" "list_all is_digit f0"
      using shift_parts_digits [OF mantissa_shape(1) [OF assms(1)] mantissa_shape(3) [OF assms(1)] sh] by simp_all
    have r: "rv = fixed_point i0 f0" using k sh by simp
    then have "string_plus (sign m) (fixed_point (dropWhile is_zero i0) (strip_zeros_end f0)) = Inr out"
      using out normalise_fixed_point [OF d] fixed_point_not_empty [of i0 f0] by simp
    from string_plus_Inr [OF this]
    have "out = sign m @ fixed_point (dropWhile is_zero i0) (strip_zeros_end f0)"
      "int (length out) \<le> max_string_length" by blast+
    moreover have "canonical_parts ?ip ?fp k = (dropWhile is_zero i0, strip_zeros_end f0)"
      using sh by (simp add: canonical_parts_def)
    ultimately show ?thesis using False by (intro disjI2 conjI exI [of _ k]) simp_all
  qed
qed

lemma has_nonzero_dropWhile: "has_nonzero ds = (dropWhile is_zero ds \<noteq> [])"
  by (simp add: has_nonzero_def list_all_iff dropWhile_eq_Nil_conv)

lemma has_nonzero_strip: "has_nonzero ds = (strip_zeros_end ds \<noteq> [])"
  by (simp add: has_nonzero_def strip_zeros_end_all_zero)

lemma has_nonzero_append: "has_nonzero (xs @ ys) = (has_nonzero xs \<or> has_nonzero ys)"
  by (auto simp: has_nonzero_def)

lemma has_nonzero_zeros: "\<not> has_nonzero (replicate k CHR ''0'')"
  by (simp add: has_nonzero_def list_all_iff is_zero_def)

lemma has_nonzero_Nil: "\<not> has_nonzero []"
  by (simp add: has_nonzero_def)

lemma has_nonzero_take_drop: "(has_nonzero (take k m) \<or> has_nonzero (drop k m)) = has_nonzero m"
  using has_nonzero_append [of "take k m" "drop k m"] by (simp only: append_take_drop_id)

lemma shift_parts_nonzero:
  assumes "shift_parts ip fp e = (i0, f0)"
  shows "(has_nonzero i0 \<or> has_nonzero f0) = has_nonzero (ip @ fp)"
proof -
  let ?m = "ip @ fp"
  consider (pad) "int (length ?m) \<le> int (length ip) + e"
    | (mid) "\<not> int (length ?m) \<le> int (length ip) + e" "0 < int (length ip) + e"
    | (low) "\<not> int (length ?m) \<le> int (length ip) + e" "\<not> 0 < int (length ip) + e"
    by blast
  then show ?thesis
  proof cases
    case pad
    then have "i0 = ?m @ replicate (nat (int (length ip) + e - int (length ?m))) CHR ''0''" "f0 = []"
      using assms by (simp_all add: shift_parts_def Let_def)
    then show ?thesis using has_nonzero_append has_nonzero_zeros has_nonzero_Nil by simp
  next
    case mid
    then have "i0 = take (nat (int (length ip) + e)) ?m" "f0 = drop (nat (int (length ip) + e)) ?m"
      using assms by (simp_all add: shift_parts_def Let_def)
    then show ?thesis using has_nonzero_take_drop [of "nat (int (length ip) + e)" ?m] by (simp only:)
  next
    case low
    then have "i0 = []" "f0 = replicate (nat (- (int (length ip) + e))) CHR ''0'' @ ?m"
      using assms by (simp_all add: shift_parts_def Let_def)
    then show ?thesis using has_nonzero_append has_nonzero_zeros has_nonzero_Nil by simp
  qed
qed

lemma canonical_parts_nonzero:
  assumes "canonical_parts ip fp e = (i, f)"
  shows "(i \<noteq> [] \<or> f \<noteq> []) = has_nonzero (ip @ fp)"
proof -
  obtain i0 f0 where sh: "shift_parts ip fp e = (i0, f0)" by fastforce
  then have "i = dropWhile is_zero i0" "f = strip_zeros_end f0"
    using assms by (simp_all add: canonical_parts_def)
  then show ?thesis
    using shift_parts_nonzero [OF sh] has_nonzero_dropWhile [of i0] has_nonzero_strip [of f0] by simp
qed

lemma canonical_parts_shape:
  assumes "list_all is_digit ip" "list_all is_digit fp" "canonical_parts ip fp e = (i, f)"
  shows "list_all is_digit i" "list_all is_digit f" "i = [] \<or> \<not> is_zero (hd i)" "f = [] \<or> \<not> is_zero (last f)"
proof -
  obtain i0 f0 where sh: "shift_parts ip fp e = (i0, f0)" by fastforce
  then have eq: "i = dropWhile is_zero i0" "f = strip_zeros_end f0"
    using assms(3) by (simp_all add: canonical_parts_def)
  have d: "list_all is_digit i0" "list_all is_digit f0"
    using shift_parts_digits [OF assms(1,2) sh] by simp_all
  show "list_all is_digit i" using eq(1) dropWhile_zero_digits [OF d(1)] by simp
  show "list_all is_digit f" using eq(2) strip_zeros_end_digits [OF d(2)] by simp
  show "i = [] \<or> \<not> is_zero (hd i)" using eq(1) hd_dropWhile_not [of is_zero i0] by auto
  show "f = [] \<or> \<not> is_zero (last f)" using eq(2) strip_zeros_end_last [of f0] by simp
qed

lemma mantissa_nonzero:
  assumes "regex_match s = Some m"
  shows "has_nonzero (mantissa_int m @ mantissa_frac m) = (mantissa_int m @ mantissa_frac m \<noteq> [])"
proof -
  have a: "\<And>ds. ds \<noteq> [] \<Longrightarrow> \<not> is_zero (hd ds) \<Longrightarrow> has_nonzero ds"
    by (auto simp: has_nonzero_def list_all_iff)
  have b: "\<And>ds. ds \<noteq> [] \<Longrightarrow> \<not> is_zero (last ds) \<Longrightarrow> has_nonzero ds"
    by (auto simp: has_nonzero_def list_all_iff)
  show ?thesis
    using mantissa_shape(2) [OF assms] mantissa_shape(4) [OF assms] a b has_nonzero_Nil
    by (auto simp: has_nonzero_append)
qed

lemma digit_other:
  "is_digit c \<Longrightarrow> c \<noteq> CHR ''.'' \<and> c \<noteq> CHR ''-'' \<and> c \<noteq> CHR ''e'' \<and> c \<noteq> CHR ''E'' \<and> c \<noteq> CHR ''+''"
  by (auto simp: is_digit_def)

lemma digits_not_member:
  assumes "list_all is_digit ds" "\<not> is_digit c"
  shows "c \<notin> set ds"
  using assms unfolding list_all_iff by blast

lemma digits_filter_point: "list_all is_digit ds \<Longrightarrow> filter (\<lambda>c. c = CHR ''.'') ds = []"
  unfolding list_all_iff filter_empty_conv using digit_other by blast

lemma fixed_point_chars:
  assumes "list_all is_digit i" "list_all is_digit f" "\<not> is_digit c" "c \<noteq> CHR ''.''"
  shows "c \<notin> set (fixed_point i f)"
proof -
  have "c \<noteq> CHR ''0''" using assms(3) by (auto simp: is_digit_def)
  then show ?thesis
    using digits_not_member [OF assms(1,3)] digits_not_member [OF assms(2,3)] assms(4)
    by (simp add: fixed_point_def)
qed

lemma fixed_point_no_exponent:
  assumes "list_all is_digit i" "list_all is_digit f" "sg = [] \<or> sg = ''-''"
  shows "no_exponent_marker (sg @ fixed_point i f)"
  using fixed_point_chars [OF assms(1,2), of "CHR ''e''"] fixed_point_chars [OF assms(1,2), of "CHR ''E''"] assms(3)
  by (auto simp: no_exponent_marker_def)

lemma fixed_point_one_point:
  assumes "list_all is_digit i" "list_all is_digit f" "sg = [] \<or> sg = ''-''"
  shows "at_most_one_point (sg @ fixed_point i f)"
  using digits_filter_point [OF assms(1)] digits_filter_point [OF assms(2)] assms(3)
  by (auto simp: at_most_one_point_def fixed_point_def)

lemma fixed_point_hd: 
  assumes "list_all is_digit i"
  shows "is_digit (hd (fixed_point i f))"
  using assms by (cases i) (simp_all add: fixed_point_def is_digit_def)

lemma unsigned_part_fixed_point:
  assumes "list_all is_digit i" "sg = [] \<or> sg = ''-''"
  shows "unsigned_part (sg @ fixed_point i f) = fixed_point i f"
proof -
  obtain c t where ct: "fixed_point i f = c # t"
    using fixed_point_not_empty [of i f] by (cases "fixed_point i f") auto
  then have "c \<noteq> CHR ''-''" using fixed_point_hd [OF assms(1), of f] digit_other [of c] by auto
  then show ?thesis using ct assms(2) by (auto simp: unsigned_part_def)
qed

lemma fixed_point_leading:
  assumes "list_all is_digit i" "i = [] \<or> \<not> is_zero (hd i)" "sg = [] \<or> sg = ''-''"
  shows "no_leading_zeros (sg @ fixed_point i f)"
proof -
  have "case fixed_point i f of c # d # t \<Rightarrow> c \<noteq> CHR ''0'' \<or> d = CHR ''.'' | _ \<Rightarrow> True"
  proof (cases i)
    case Nil
    then show ?thesis by (simp add: fixed_point_def)
  next
    case (Cons c t)
    then have "c \<noteq> CHR ''0''" using assms(2) by (simp add: is_zero_def)
    then show ?thesis using Cons by (cases "t @ (if f = [] then [] else CHR ''.'' # f)") (simp_all add: fixed_point_def)
  qed
  then show ?thesis
    unfolding no_leading_zeros_def unsigned_part_fixed_point [OF assms(1,3)] .
qed

lemma fixed_point_trailing:
  assumes "list_all is_digit i" "list_all is_digit f" "f = [] \<or> \<not> is_zero (last f)" "sg = [] \<or> sg = ''-''"
  shows "no_trailing_zeros (sg @ fixed_point i f)"
proof (cases "f = []")
  case True
  have "CHR ''.'' \<notin> set (fixed_point i [])"
    using digits_not_member [OF assms(1), of "CHR ''.''"] by (simp add: fixed_point_def)
  then show ?thesis using True assms(4) by (auto simp: no_trailing_zeros_def)
next
  case False
  then have l: "last (sg @ fixed_point i f) = last f" by (simp add: fixed_point_def)
  have "is_digit (last f)" using False assms(2) by (simp add: list_all_iff)
  then have "last f \<noteq> CHR ''.''" using digit_other by blast
  moreover have "last f \<noteq> CHR ''0''" using False assms(3) by (simp add: is_zero_def)
  ultimately show ?thesis using l fixed_point_not_empty [of i f] by (simp add: no_trailing_zeros_def)
qed

section \<open>The rendering of a finite number is a literal\<close>

lemma digit_char_digit: "d < 10 \<Longrightarrow> is_digit (digit_char d)"
proof -
  assume "d < 10"
  then have "d < length ''0123456789''" by simp
  then have "''0123456789'' ! d \<in> set ''0123456789''" by (rule nth_mem)
  then show ?thesis by (simp only: is_digit_def digit_char_def)
qed

lemma dec_of_nat_digits: "list_all is_digit (dec_of_nat n) \<and> dec_of_nat n \<noteq> []"
proof (induction n rule: dec_of_nat.induct)
  case (1 n)
  show ?case
  proof (cases "n < 10")
    case True
    then show ?thesis using digit_char_digit [of n] by (simp add: dec_of_nat.simps [of n])
  next
    case False
    have "n mod 10 < 10" by simp
    then show ?thesis using False 1 digit_char_digit [of "n mod 10"]
      by (simp add: dec_of_nat.simps [of n])
  qed
qed

lemma exp_text_parts:
  "\<exists>sg2 ds. exp_text e = sg2 @ ds \<and> is_sign_text sg2 \<and> ds \<noteq> [] \<and> list_all is_digit ds"
  using dec_of_nat_digits [of "nat \<bar>e\<bar>"]
  by (intro exI [of _ "if e < 0 then ''-'' else ''+''"] exI [of _ "dec_of_nat (nat \<bar>e\<bar>)"])
     (simp add: exp_text_def is_sign_text_def)

lemma render_finite_literal:
  assumes "list_all is_digit ds" "ds \<noteq> []" and that: "is_sign_text sg"
  shows "\<exists>ip fr ex. literal_parts sg ip fr ex \<and> sg @ render_finite ds n = literal_text sg ip fr ex"
proof -
  obtain sg2 es where es: "exp_text (n - 1) = sg2 @ es" "is_sign_text sg2" "es \<noteq> []" "list_all is_digit es"
    using exp_text_parts by blast
  have t: "\<And>k. list_all is_digit (take k ds)" "\<And>k. list_all is_digit (drop k ds)"
    using assms(1) unfolding list_all_iff by (auto dest: in_set_takeD in_set_dropD)
  have z: "\<And>k. list_all is_digit (replicate k CHR ''0'')" by (simp add: list_all_iff is_digit_def)
  let ?k = "int (length ds)"
  consider (a) "?k \<le> n \<and> n \<le> 21"
    | (b) "\<not> (?k \<le> n \<and> n \<le> 21)" "0 < n \<and> n \<le> 21"
    | (c) "\<not> (?k \<le> n \<and> n \<le> 21)" "\<not> (0 < n \<and> n \<le> 21)" "-6 < n \<and> n \<le> 0"
    | (d) "\<not> (?k \<le> n \<and> n \<le> 21)" "\<not> (0 < n \<and> n \<le> 21)" "\<not> (-6 < n \<and> n \<le> 0)" "?k = 1"
    | (e) "\<not> (?k \<le> n \<and> n \<le> 21)" "\<not> (0 < n \<and> n \<le> 21)" "\<not> (-6 < n \<and> n \<le> 0)" "?k \<noteq> 1"
    by blast
  then show ?thesis
  proof cases
    case a
    then have "sg @ render_finite ds n = literal_text sg (ds @ replicate (nat (n - ?k)) CHR ''0'') None None"
      by (simp add: render_finite_def literal_text_def fraction_text_def exponent_text_def)
    moreover have "literal_parts sg (ds @ replicate (nat (n - ?k)) CHR ''0'') None None"
      using that assms(1) z by (simp add: literal_parts_def)
    ultimately show ?thesis by blast
  next
    case b
    then have "sg @ render_finite ds n = literal_text sg (take (nat n) ds) (Some (drop (nat n) ds)) None"
      by (simp add: render_finite_def literal_text_def fraction_text_def exponent_text_def)
    moreover have "literal_parts sg (take (nat n) ds) (Some (drop (nat n) ds)) None"
      using that t by (simp add: literal_parts_def)
    ultimately show ?thesis by blast
  next
    case c
    then have "sg @ render_finite ds n = literal_text sg ''0'' (Some (replicate (nat (- n)) CHR ''0'' @ ds)) None"
      by (simp add: render_finite_def literal_text_def fraction_text_def exponent_text_def)
    moreover have "literal_parts sg ''0'' (Some (replicate (nat (- n)) CHR ''0'' @ ds)) None"
      using that assms(1) z by (simp add: literal_parts_def is_digit_def)
    ultimately show ?thesis by blast
  next
    case d
    then have "sg @ render_finite ds n = literal_text sg ds None (Some (CHR ''e'', sg2, es))"
      using es(1) by (auto simp: render_finite_def literal_text_def fraction_text_def exponent_text_def)
    moreover have "literal_parts sg ds None (Some (CHR ''e'', sg2, es))"
      using that assms(1) es by (simp add: literal_parts_def is_exp_mark_def)
    ultimately show ?thesis by blast
  next
    case e
    then have "sg @ render_finite ds n = literal_text sg (take 1 ds) (Some (drop 1 ds)) (Some (CHR ''e'', sg2, es))"
      using es(1) by (auto simp: render_finite_def literal_text_def fraction_text_def exponent_text_def)
    moreover have "literal_parts sg (take 1 ds) (Some (drop 1 ds)) (Some (CHR ''e'', sg2, es))"
      using that t es by (simp add: literal_parts_def is_exp_mark_def)
    ultimately show ?thesis by blast
  qed
qed

lemma finite_number_matches:
  assumes "finite_number n"
  shows "\<exists>m. regex_match (String (JNumber n)) = Some m"
proof (cases n)
  case (Zero neg)
  have "regex_match ''0'' \<noteq> None" by code_simp
  then show ?thesis using Zero by auto
next
  case (Finite neg ds k)
  then have wf: "list_all is_digit ds" "ds \<noteq> []" using assms by (simp_all add: finite_number_def wf_number_def)
  have sg: "is_sign_text (if neg then ''-'' else [])" by (simp add: is_sign_text_def)
  from render_finite_literal [OF wf sg, of k] obtain ip fr ex where
    "literal_parts (if neg then ''-'' else []) ip fr ex"
    "(if neg then ''-'' else []) @ render_finite ds k = literal_text (if neg then ''-'' else []) ip fr ex"
    by blast
  then show ?thesis using regex_match_literal_text [of "if neg then ''-'' else []" ip fr ex] Finite
    by simp
qed (use assms in \<open>simp_all add: finite_number_def\<close>)

section \<open>Properties of the output\<close>

lemma sign_cases: "sign m = [] \<or> sign m = ''-''"
  by (simp add: sign_def)

lemma shape_zero:
  "no_exponent_marker ''0''" "at_most_one_point ''0''" "no_leading_zeros ''0''" "no_trailing_zeros ''0''"
  by (simp_all add: no_exponent_marker_def at_most_one_point_def no_leading_zeros_def
      no_trailing_zeros_def unsigned_part_def)

lemma matched_output_cases:
  assumes "regex_match (String x) = Some m" "Num2FracStr x = Inr out"
  obtains (zero) "out = ''0''" "\<not> has_nonzero (mantissa_int m @ mantissa_frac m)"
  | (nonzero) i f where "out = sign m @ fixed_point i f" "has_nonzero (mantissa_int m @ mantissa_frac m)"
      "list_all is_digit i" "list_all is_digit f" "i = [] \<or> \<not> is_zero (hd i)" "f = [] \<or> \<not> is_zero (last f)"
      "i \<noteq> [] \<or> f \<noteq> []" "int (length out) \<le> max_string_length"
proof (cases "mantissa_int m @ mantissa_frac m = []")
  case True
  then have "out = ''0''" using Num2FracStr_matched [OF assms] by simp
  then show ?thesis using zero True mantissa_nonzero [OF assms(1)] by simp
next
  case False
  then obtain k where o: "out = sign m @ (case canonical_parts (mantissa_int m) (mantissa_frac m) k
                            of (i, f) \<Rightarrow> fixed_point i f)"
    and l: "int (length out) \<le> max_string_length"
    using Num2FracStr_matched [OF assms] by blast
  obtain i f where cp: "canonical_parts (mantissa_int m) (mantissa_frac m) k = (i, f)"
    by fastforce
  have o': "out = sign m @ fixed_point i f" using o cp by simp
  have nz: "has_nonzero (mantissa_int m @ mantissa_frac m)"
    using False mantissa_nonzero [OF assms(1)] by simp
  show ?thesis
    using nonzero [OF o' nz _ _ _ _ _ l]
      canonical_parts_shape [OF mantissa_shape(1) [OF assms(1)] mantissa_shape(3) [OF assms(1)] cp]
      canonical_parts_nonzero [OF cp] nz
    by blast
qed

lemma matched_output_shape:
  assumes "regex_match (String x) = Some m" "Num2FracStr x = Inr out"
  shows "no_exponent_marker out \<and> at_most_one_point out \<and> no_leading_zeros out \<and> no_trailing_zeros out"
  using assms
proof (cases rule: matched_output_cases)
  case zero
  then show ?thesis using shape_zero by simp
next
  case (nonzero i f)
  show ?thesis
    unfolding nonzero(1)
    using fixed_point_no_exponent [OF nonzero(3,4) sign_cases] fixed_point_one_point [OF nonzero(3,4) sign_cases]
      fixed_point_leading [OF nonzero(3,5) sign_cases] fixed_point_trailing [OF nonzero(3,4,6) sign_cases]
    by blast
qed

lemma special_output_shape:
  assumes "out = ''NaN'' \<or> out = ''Infinity'' \<or> out = ''-Infinity''"
  shows "no_exponent_marker out \<and> at_most_one_point out \<and> no_leading_zeros out \<and> no_trailing_zeros out"
  using assms
  by (auto simp: no_exponent_marker_def at_most_one_point_def no_leading_zeros_def
      no_trailing_zeros_def unsigned_part_def)

lemma valid_input_cases:
  assumes "valid_input x"
  obtains (matched) m where "regex_match (String x) = Some m"
  | (special) "x = JNumber NaN \<or> x = JNumber PosInfinity \<or> x = JNumber NegInfinity"
  | (rejected) s where "x = JString s" "regex_match s = None"
proof (cases x)
  case (JString s)
  then show ?thesis using matched rejected by (cases "regex_match s") auto
next
  case (JNumber n)
  show ?thesis
  proof (cases "finite_number n")
    case True
    then show ?thesis using finite_number_matches [OF True] matched JNumber by blast
  next
    case False
    then show ?thesis using special JNumber assms
      by (cases n) (auto simp: finite_number_def valid_input_def)
  qed
qed

lemma special_outputs:
  "Num2FracStr (JNumber NaN) = Inr ''NaN''" "Num2FracStr (JNumber PosInfinity) = Inr ''Infinity''"
  "Num2FracStr (JNumber NegInfinity) = Inr ''-Infinity''"
  by code_simp+

text \<open>
  C4: whenever the conversion returns, for a string or a well-formed number, the output
  has no \<open>e\<close> and no \<open>E\<close>, has at most one decimal point, has a zero at the front (after
  the sign) only as the whole output or right before the decimal point, and, when it has
  a decimal point, does not end with a zero.
\<close>

theorem output_shape:
  assumes "valid_input x" "Num2FracStr x = Inr out"
  shows "no_exponent_marker out \<and> at_most_one_point out \<and> no_leading_zeros out \<and> no_trailing_zeros out"
  using assms(1)
proof (cases rule: valid_input_cases)
  case (matched m)
  then show ?thesis using matched_output_shape assms(2) by blast
next
  case special
  then have "out = ''NaN'' \<or> out = ''Infinity'' \<or> out = ''-Infinity''"
    using assms(2) special_outputs by auto
  then show ?thesis by (rule special_output_shape)
next
  case (rejected s)
  then show ?thesis using assms(2) Num2FracStr_string_fail [of s] by simp
qed

theorem output_shape_witness:
  "Num2FracStr (JString ''-00120.0300e-2'') = Inr ''-1.2003'' \<and>
   no_exponent_marker ''-1.2003'' \<and> at_most_one_point ''-1.2003'' \<and>
   no_leading_zeros ''-1.2003'' \<and> no_trailing_zeros ''-1.2003''"
proof -
  have v: "valid_input (JString ''-00120.0300e-2'')" by (simp add: valid_input_def)
  have h: "Num2FracStr (JString ''-00120.0300e-2'') = Inr ''-1.2003''" by code_simp
  show ?thesis using h output_shape [OF v h] by simp
qed




section \<open>Converting an output again\<close>

lemma dropWhile_zero_id: "ds = [] \<or> \<not> is_zero (hd ds) \<Longrightarrow> dropWhile is_zero ds = ds"
  by (cases ds) auto

lemma canonical_parts_id:
  assumes "i = [] \<or> \<not> is_zero (hd i)" "f = [] \<or> \<not> is_zero (last f)"
  shows "canonical_parts i f 0 = (i, f)"
  using dropWhile_zero_id [OF assms(1)] strip_zeros_end_id [OF assms(2)]
  by (simp add: canonical_parts_def shift_parts_zero)

lemma fixed_point_literal:
  assumes "list_all is_digit i" "list_all is_digit f" "i = [] \<or> \<not> is_zero (hd i)"
    "f = [] \<or> \<not> is_zero (last f)" "sg = [] \<or> sg = ''-''"
  shows "regex_match (sg @ fixed_point i f)
       = Some \<lparr>group1 = sg, group2 = i, group3 = (if f = [] then None else Some f), group4 = None\<rparr>"
proof -
  define ip where "ip = (if i = [] then ''0'' else i)"
  define fr where "fr = (if f = [] then None else Some f)"
  have t: "sg @ fixed_point i f = literal_text sg ip fr None"
    by (simp add: fixed_point_def literal_text_def ip_def fr_def fraction_text_def exponent_text_def)
  have p: "literal_parts sg ip fr None"
    using assms(1,2,5) by (auto simp: literal_parts_def ip_def fr_def is_sign_text_def is_digit_def)
  have g2: "dropWhile is_zero ip = i"
    using dropWhile_zero_id [OF assms(3)] by (auto simp: ip_def is_zero_def)
  have g3: "map_option strip_zeros_end fr = fr"
    using strip_zeros_end_id [OF assms(4)] by (simp add: fr_def)
  show ?thesis
    unfolding t regex_match_literal_text [OF p] g2 g3 by (simp add: fr_def)
qed

lemma Num2FracStr_fixed_point:
  assumes "list_all is_digit i" "list_all is_digit f" "i = [] \<or> \<not> is_zero (hd i)"
    "f = [] \<or> \<not> is_zero (last f)" "sg = [] \<or> sg = ''-''" "i \<noteq> [] \<or> f \<noteq> []"
    "int (length (sg @ fixed_point i f)) \<le> max_string_length"
  shows "Num2FracStr (JString (sg @ fixed_point i f)) = Inr (sg @ fixed_point i f)"
proof -
  let ?m = "\<lparr>group1 = sg, group2 = i, group3 = (if f = [] then None else Some f), group4 = None\<rparr>"
  have m: "regex_match (String (JString (sg @ fixed_point i f))) = Some ?m"
    using fixed_point_literal [OF assms(1-5)] by simp
  have parts: "mantissa_int ?m = i" "mantissa_frac ?m = f" "exponent ?m = NotANumber" "sign ?m = sg"
    using assms(5) by (auto simp: mantissa_int_def mantissa_frac_def exponent_def Number_def sign_def)
  have ne: "i @ f \<noteq> []" using assms(6) by auto
  have rv: "returnValue i f NotANumber = Inr (fixed_point i f)"
    using returnValue_plain [of NotANumber i f] ne by (auto simp: truthy_def)
  have n: "strip_trailing (strip_leading (fixed_point i f)) = fixed_point i f"
    using normalise_fixed_point [OF assms(1,2)] dropWhile_zero_id [OF assms(3)] strip_zeros_end_id [OF assms(4)]
    by simp
  have sp: "string_plus sg (fixed_point i f) = Inr (sg @ fixed_point i f)"
    using assms(7) by (simp add: string_plus_def)
  show ?thesis
    using m fixed_point_not_empty [of i f]
    by (simp add: Num2FracStr_def parts rv n sp)
qed

lemma literal_input_matched:
  assumes "literal_input x" "Num2FracStr x = Inr out"
  shows "\<exists>m. regex_match (String x) = Some m"
proof (cases x)
  case (JNumber n)
  then show ?thesis using assms(1) finite_number_matches [of n] by (simp add: literal_input_def)
next
  case (JString s)
  then show ?thesis using assms(2) Num2FracStr_string_fail [of s] by (cases "regex_match s") auto
qed

text \<open>
  C6, as the code has it: for every string on which the conversion returns, and for every
  number that is zero or finite, converting the output again returns the same output and
  does not raise.
\<close>

theorem idempotent_on_literals:
  assumes "literal_input x" "Num2FracStr x = Inr out"
  shows "Num2FracStr (JString out) = Inr out"
proof -
  obtain m where m: "regex_match (String x) = Some m"
    using literal_input_matched [OF assms] by blast
  from m assms(2) show ?thesis
  proof (cases rule: matched_output_cases)
    case zero
    have "Num2FracStr (JString ''0'') = Inr ''0''" by code_simp
    then show ?thesis using zero(1) by simp
  next
    case (nonzero i f)
    show ?thesis
      using Num2FracStr_fixed_point [OF nonzero(3,4,5,6) sign_cases nonzero(7)] nonzero(1,8) by simp
  qed
qed

theorem idempotent_on_literals_witness:
  "Num2FracStr (JNumber (Finite True ''12'' (- 7))) = Inr ''-0.000000012'' \<and>
   Num2FracStr (JString ''-0.000000012'') = Inr ''-0.000000012''"
proof -
  have l: "literal_input (JNumber (Finite True ''12'' (- 7)))"
    by (simp add: literal_input_def finite_number_def wf_number_def is_digit_def is_zero_def)
  have h: "Num2FracStr (JNumber (Finite True ''12'' (- 7))) = Inr ''-0.000000012''" by code_simp
  show ?thesis using h idempotent_on_literals [OF l h] by simp
qed

text \<open>
  C6 as stated fails for the number not-a-number: it is returned as the string \<open>NaN\<close>,
  and that string, given back as input, raises the invalid-number error.
\<close>

theorem idempotence_counterexample:
  "Num2FracStr (JNumber NaN) = Inr ''NaN'' \<and>
   Num2FracStr (JString ''NaN'') = Inl (Error ''Invalid Number: \"NaN\"'')"
  by code_simp

section \<open>The value of the output\<close>

lemma foldl_digits: "foldl (\<lambda>a c. 10 * a + digit_val c) a ys = a * 10 ^ length ys + digits_val ys"
  unfolding digits_val_def
proof (induction ys arbitrary: a)
  case Nil
  then show ?case by simp
next
  case (Cons y ys)
  show ?case using Cons [of "10 * a + digit_val y"] Cons [of "digit_val y"]
    by (simp add: algebra_simps)
qed

lemma digits_val_append: "digits_val (xs @ ys) = digits_val xs * 10 ^ length ys + digits_val ys"
  using foldl_digits [of "digits_val xs" ys] by (simp add: digits_val_def)

lemma digits_val_Nil: "digits_val [] = 0"
  by (simp add: digits_val_def)

lemma digits_val_zeros: "digits_val (replicate k CHR ''0'') = 0"
  by (induction k) (simp_all add: digits_val_def digit_val_def)

lemma digits_val_Cons_zero: "is_zero c \<Longrightarrow> digits_val (c # t) = digits_val t"
  by (simp add: digits_val_def is_zero_def digit_val_def)

lemma digits_val_dropWhile: "digits_val (dropWhile is_zero ds) = digits_val ds"
  by (induction ds) (simp_all add: digits_val_Cons_zero)

lemma zeros_replicate: "list_all is_zero zs \<Longrightarrow> zs = replicate (length zs) CHR ''0''"
  by (induction zs) (simp_all add: is_zero_def)

lemma strip_zeros_end_decomp: "\<exists>k. ds = strip_zeros_end ds @ replicate k CHR ''0''"
proof -
  let ?z = "rev (takeWhile is_zero (rev ds))"
  have "strip_zeros_end ds @ ?z = rev (takeWhile is_zero (rev ds) @ dropWhile is_zero (rev ds))"
    by (simp only: strip_zeros_end_def rev_append)
  also have "\<dots> = ds" by (simp only: takeWhile_dropWhile_id rev_rev_ident)
  finally have d: "ds = strip_zeros_end ds @ ?z" by (rule sym)
  have "list_all is_zero (takeWhile is_zero (rev ds))"
    unfolding list_all_iff by (auto dest: set_takeWhileD)
  then have "list_all is_zero ?z" by (simp add: list_all_iff)
  then have "?z = replicate (length ?z) CHR ''0''" by (rule zeros_replicate)
  then show ?thesis using d by metis
qed

lemma frac_value_append_zeros: "frac_value (ds @ replicate k CHR ''0'') = frac_value ds"
  by (simp add: frac_value_def digits_val_append digits_val_zeros power_add)

lemma frac_value_strip: "frac_value (strip_zeros_end ds) = frac_value ds"
proof -
  obtain k where "ds = strip_zeros_end ds @ replicate k CHR ''0''"
    using strip_zeros_end_decomp by blast
  then show ?thesis using frac_value_append_zeros [of "strip_zeros_end ds" k] by simp
qed

lemma frac_value_Nil: "frac_value [] = 0"
  by (simp add: frac_value_def digits_val_def)

lemma frac_value_powi: "frac_value ds = of_nat (digits_val ds) * power_int 10 (- int (length ds))"
  by (simp add: frac_value_def power_int_minus divide_inverse)

lemma ten_powi_cancel: "(10::rat) ^ n * power_int 10 (- int n) = 1"
  by (simp add: power_int_minus)

lemma split_value:
  "of_nat (digits_val a) + frac_value b = of_nat (digits_val (a @ b)) * power_int (10::rat) (- int (length b))"
proof -
  have "of_nat (digits_val (a @ b)) * power_int (10::rat) (- int (length b))
      = of_nat (digits_val a) * (10 ^ length b * power_int 10 (- int (length b)))
        + of_nat (digits_val b) * power_int 10 (- int (length b))"
    by (simp only: digits_val_append of_nat_add of_nat_mult of_nat_power of_nat_numeral algebra_simps)
  then show ?thesis by (simp only: ten_powi_cancel frac_value_powi mult_1_right)
qed

lemma shift_parts_value:
  assumes "shift_parts ip fp e = (i0, f0)"
  shows "of_nat (digits_val i0) + frac_value f0
       = (of_nat (digits_val ip) + frac_value fp) * power_int (10::rat) e"
proof -
  let ?m = "ip @ fp" and ?sp = "int (length ip) + e"
  have rhs: "(of_nat (digits_val ip) + frac_value fp) * power_int (10::rat) e
      = of_nat (digits_val ?m) * power_int 10 (e - int (length fp))"
    using power_int_add [of "10::rat" "- int (length fp)" e]
    by (simp add: split_value [of ip fp] mult.assoc)
  consider (pad) "int (length ?m) \<le> ?sp"
    | (mid) "\<not> int (length ?m) \<le> ?sp" "0 < ?sp"
    | (low) "\<not> int (length ?m) \<le> ?sp" "\<not> 0 < ?sp"
    by blast
  then have "of_nat (digits_val (i0 @ f0)) * power_int (10::rat) (- int (length f0))
      = of_nat (digits_val ?m) * power_int 10 (e - int (length fp))"
  proof cases
    case pad
    then have eq: "i0 = ?m @ replicate (nat (?sp - int (length ?m))) CHR ''0''" "f0 = []"
      using assms by (simp_all add: shift_parts_def Let_def)
    have k: "int (nat (?sp - int (length ?m))) = e - int (length fp)" using pad by simp
    have "digits_val (i0 @ f0) = digits_val ?m * 10 ^ nat (?sp - int (length ?m))"
      unfolding eq append_Nil2
      by (simp only: digits_val_append [of ?m] digits_val_zeros length_replicate add_0_right)
    then have "of_nat (digits_val (i0 @ f0)) = of_nat (digits_val ?m) * (10::rat) ^ nat (?sp - int (length ?m))"
      by simp
    also have "(10::rat) ^ nat (?sp - int (length ?m)) = power_int 10 (e - int (length fp))"
      using k power_int_of_nat [of "10::rat" "nat (?sp - int (length ?m))"] by simp
    finally show ?thesis using eq(2) by simp
  next
    case mid
    then have eq: "i0 = take (nat ?sp) ?m" "f0 = drop (nat ?sp) ?m"
      using assms by (simp_all add: shift_parts_def Let_def)
    have "i0 @ f0 = ?m" unfolding eq by (rule append_take_drop_id)
    moreover have "- int (length f0) = e - int (length fp)" using mid eq(2) by simp
    ultimately show ?thesis by simp
  next
    case low
    then have eq: "i0 = []" "f0 = replicate (nat (- ?sp)) CHR ''0'' @ ?m"
      using assms by (simp_all add: shift_parts_def Let_def)
    have "digits_val (i0 @ f0) = digits_val ?m"
      unfolding eq append_Nil
      by (simp only: digits_val_append [of "replicate (nat (- ?sp)) CHR ''0''"] digits_val_zeros mult_0 add_0)
    moreover have "- int (length f0) = e - int (length fp)" using low eq(2) by simp
    ultimately show ?thesis by simp
  qed
  then show ?thesis using rhs split_value [of i0 f0] by simp
qed

lemma canonical_parts_value:
  assumes "canonical_parts ip fp e = (i, f)"
  shows "of_nat (digits_val i) + frac_value f
       = (of_nat (digits_val ip) + frac_value fp) * power_int (10::rat) e"
proof -
  obtain i0 f0 where sh: "shift_parts ip fp e = (i0, f0)" by fastforce
  then have "i = dropWhile is_zero i0" "f = strip_zeros_end f0"
    using assms by (simp_all add: canonical_parts_def)
  then show ?thesis using shift_parts_value [OF sh] by (simp add: digits_val_dropWhile frac_value_strip)
qed

lemma unsigned_value_fixed_point:
  assumes "list_all is_digit i"
  shows "unsigned_value (fixed_point i f) = of_nat (digits_val i) + frac_value f"
proof -
  define ip where "ip = (if i = [] then ''0'' else i)"
  have np: "\<And>c. c \<in> set ip \<Longrightarrow> c \<noteq> CHR ''.''"
    using digits_no_point [OF assms] by (auto simp: ip_def split: if_splits)
  have v: "digits_val ip = digits_val i" by (simp add: ip_def digits_val_def digit_val_def)
  show ?thesis
  proof (cases "f = []")
    case True
    then have fp: "fixed_point i f = ip" by (simp add: fixed_point_def ip_def)
    have tw: "takeWhile (\<lambda>c. c \<noteq> CHR ''.'') ip = ip" and dw: "dropWhile (\<lambda>c. c \<noteq> CHR ''.'') ip = []"
      using np by (simp_all add: takeWhile_eq_all_conv)
    have "unsigned_value ip = of_nat (digits_val ip) + frac_value (drop 1 [])"
      unfolding unsigned_value_def Let_def tw dw frac_value_def by (rule refl)
    then show ?thesis unfolding fp using True v by (simp add: frac_value_Nil)
  next
    case False
    then have fp: "fixed_point i f = ip @ CHR ''.'' # f" by (simp add: fixed_point_def ip_def)
    have tw: "takeWhile (\<lambda>c. c \<noteq> CHR ''.'') (ip @ CHR ''.'' # f) = ip"
      and dw: "dropWhile (\<lambda>c. c \<noteq> CHR ''.'') (ip @ CHR ''.'' # f) = CHR ''.'' # f"
      using np by (simp_all add: takeWhile_append2 dropWhile_append2)
    have "unsigned_value (ip @ CHR ''.'' # f) = of_nat (digits_val ip) + frac_value (drop 1 (CHR ''.'' # f))"
      unfolding unsigned_value_def Let_def tw dw frac_value_def by (rule refl)
    then show ?thesis unfolding fp using v by simp
  qed
qed

lemma decimal_value_fixed_point:
  assumes "list_all is_digit i" "sg = [] \<or> sg = ''-''"
  shows "decimal_value (sg @ fixed_point i f)
       = (if sg = ''-'' then - 1 else 1) * (of_nat (digits_val i) + frac_value f)"
proof -
  obtain c t where ct: "fixed_point i f = c # t"
    using fixed_point_not_empty [of i f] by (cases "fixed_point i f") auto
  then have "c \<noteq> CHR ''-''" using fixed_point_hd [OF assms(1), of f] digit_other [of c] by auto
  then have "decimal_value (sg @ fixed_point i f)
      = (if sg = ''-'' then - 1 else 1) * unsigned_value (fixed_point i f)"
    using assms(2) ct by (auto simp: decimal_value_def)
  then show ?thesis by (simp only: unsigned_value_fixed_point [OF assms(1)])
qed

lemma digits_int_foldl:
  "foldl (\<lambda>a c. 10 * a + int (digit_val c)) (int a) ds = int (foldl (\<lambda>a c. 10 * a + digit_val c) a ds)"
proof (induction ds arbitrary: a)
  case Nil
  then show ?case by simp
next
  case (Cons c ds)
  show ?case using Cons [of "10 * a + digit_val c"] by simp
qed

lemma digits_int_val: "digits_int ds = int (digits_val ds)"
  using digits_int_foldl [of 0 ds] by (simp add: digits_int_def digits_val_def)

lemma Number_signed_digits:
  assumes "is_sign_text sg2" "ds \<noteq> []" "list_all is_digit ds"
  shows "Number (Some (sg2 @ ds)) = to_double (if sg2 = ''-'' then - int (digits_val ds) else int (digits_val ds))"
proof -
  obtain c u where cu: "ds = c # u" using assms(2) by (cases ds) auto
  then have "c \<noteq> CHR ''-''" "c \<noteq> CHR ''+''" using assms(3) digit_other [of c] by auto
  then show ?thesis using assms(1) cu by (auto simp: Number_def is_sign_text_def digits_int_val)
qed

lemma decimal_value_zero: "decimal_value ''0'' = 0"
  by (simp add: decimal_value_def unsigned_value_def digits_val_def digit_val_def)

lemma decimal_numeral_zero: "decimal_numeral ''0''"
  by (simp add: decimal_numeral_def unsigned_part_def is_digit_def)

lemma decimal_numeral_fixed_point:
  assumes "list_all is_digit i" "list_all is_digit f" "sg = [] \<or> sg = ''-''"
  shows "decimal_numeral (sg @ fixed_point i f)"
proof -
  define ip where "ip = (if i = [] then ''0'' else i)"
  have d: "list_all is_digit ip" "ip \<noteq> []" using assms(1) by (auto simp: ip_def is_digit_def)
  have np: "\<And>c. c \<in> set ip \<Longrightarrow> c \<noteq> CHR ''.''"
    using digits_no_point [OF d(1)] by auto
  have u: "unsigned_part (sg @ fixed_point i f) = fixed_point i f"
    by (rule unsigned_part_fixed_point [OF assms(1,3)])
  show ?thesis
  proof (cases "f = []")
    case True
    then have fp: "fixed_point i f = ip" by (simp add: fixed_point_def ip_def)
    have tw: "takeWhile (\<lambda>c. c \<noteq> CHR ''.'') ip = ip" and dw: "dropWhile (\<lambda>c. c \<noteq> CHR ''.'') ip = []"
      using np by (simp_all add: takeWhile_eq_all_conv)
    have u': "unsigned_part (sg @ fixed_point i f) = ip" using u fp by simp
    show ?thesis unfolding decimal_numeral_def Let_def u' tw dw using d by simp
  next
    case False
    then have fp: "fixed_point i f = ip @ CHR ''.'' # f" by (simp add: fixed_point_def ip_def)
    have tw: "takeWhile (\<lambda>c. c \<noteq> CHR ''.'') (ip @ CHR ''.'' # f) = ip"
      and dw: "dropWhile (\<lambda>c. c \<noteq> CHR ''.'') (ip @ CHR ''.'' # f) = CHR ''.'' # f"
      using np by (simp_all add: takeWhile_append2 dropWhile_append2)
    have u': "unsigned_part (sg @ fixed_point i f) = ip @ CHR ''.'' # f" using u fp by simp
    show ?thesis unfolding decimal_numeral_def Let_def u' tw dw using d False assms(2) by simp
  qed
qed

lemma length_fixed_point_canonical:
  "length (fixed_point (dropWhile is_zero i) (strip_zeros_end f)) \<le> length (fixed_point i f)"
proof -
  have a: "length (if dropWhile is_zero i = [] then ''0'' else dropWhile is_zero i)
      \<le> length (if i = [] then ''0'' else i)"
    using length_dropWhile_le [of is_zero i] by (cases i) (auto split: if_splits)
  have l: "length (strip_zeros_end f) \<le> length f"
    using length_dropWhile_le [of is_zero "rev f"] by (simp add: strip_zeros_end_def)
  have b: "length (if strip_zeros_end f = [] then [] else CHR ''.'' # strip_zeros_end f)
      \<le> length (if f = [] then [] else CHR ''.'' # f)"
    using l by (auto simp: strip_zeros_end_def)
  show ?thesis unfolding fixed_point_def length_append using a b by (rule add_mono)
qed

lemma length_fixed_point: "length (fixed_point i f) \<le> length i + length f + 2"
  by (simp add: fixed_point_def)

lemma literal_exponent_number:
  assumes "literal_parts sg ip fr ex"
  shows "Number (map_option (\<lambda>(mk, sg, ds). sg @ ds) ex)
       = (case ex of None \<Rightarrow> NotANumber | Some a \<Rightarrow> to_double (literal_exponent ex))"
proof (cases ex)
  case None
  then show ?thesis by (simp add: Number_def)
next
  case (Some a)
  obtain mk sg2 ds where a: "a = (mk, sg2, ds)" by (cases a)
  then have "is_sign_text sg2" "ds \<noteq> []" "list_all is_digit ds"
    using assms Some by (simp_all add: literal_parts_def)
  from Number_signed_digits [OF this] show ?thesis
    using Some a by (simp add: literal_exponent_def)
qed

lemma literal_mantissa_length:
  assumes "literal_parts sg ip fr ex" "ex \<noteq> None"
  shows "int (length (dropWhile is_zero ip @ (case fr of None \<Rightarrow> [] | Some fp \<Rightarrow> strip_zeros_end fp))) + 2
       \<le> int (length (literal_text sg ip fr ex))"
proof -
  obtain mk sg2 ds where ex: "ex = Some (mk, sg2, ds)" using assms(2) by (cases ex) auto
  then have "ds \<noteq> []" using assms(1) by (simp add: literal_parts_def)
  then have e: "2 \<le> length (exponent_text ex)" using ex by (cases ds) (simp_all add: exponent_text_def)
  have i: "length (dropWhile is_zero ip) \<le> length ip" by (rule length_dropWhile_le)
  have f: "length (case fr of None \<Rightarrow> [] | Some fp \<Rightarrow> strip_zeros_end fp) \<le> length (fraction_text fr)"
    using length_dropWhile_le [of is_zero "rev fp" for fp]
    by (cases fr) (simp_all add: fraction_text_def strip_zeros_end_def le_SucI)
  show ?thesis using e i f by (simp add: literal_text_def)
qed

lemma literal_mantissa_length_le:
  "length (dropWhile is_zero ip @ (case fr of None \<Rightarrow> [] | Some fp \<Rightarrow> strip_zeros_end fp))
       \<le> length (literal_text sg ip fr ex)"
proof -
  have i: "length (dropWhile is_zero ip) \<le> length ip" by (rule length_dropWhile_le)
  have f: "length (case fr of None \<Rightarrow> [] | Some fp \<Rightarrow> strip_zeros_end fp) \<le> length (fraction_text fr)"
    using length_dropWhile_le [of is_zero "rev fp" for fp]
    by (cases fr) (simp_all add: fraction_text_def strip_zeros_end_def le_SucI)
  show ?thesis using i f by (simp add: literal_text_def)
qed

lemma length_shifted_le:
  "int (length (shifted_mantissa m (int li + e))) \<le> int (length m) + int li + \<bar>e\<bar> + 2"
  unfolding length_shifted_mantissa by (auto simp: abs_if)

text \<open>What lines 55 to 127 give for a literal: the mantissa shifted by the exponent the
  literal denotes, when they give a string.\<close>

lemma returnValue_literal:
  assumes "literal_parts sg ip fr ex" "int (length (literal_text sg ip fr ex)) \<le> max_string_length"
    and "regex_match (literal_text sg ip fr ex) = Some m"
    and "mantissa_int m @ mantissa_frac m \<noteq> []"
  shows "returnValue (mantissa_int m) (mantissa_frac m) (exponent m) = Inr rv \<Longrightarrow>
           rv = shifted_mantissa (mantissa_int m @ mantissa_frac m)
                  (int (length (mantissa_int m)) + literal_exponent ex)"
    and "int (length (literal_text sg ip fr ex)) + \<bar>literal_exponent ex\<bar> + 3 \<le> max_string_length \<Longrightarrow>
           returnValue (mantissa_int m) (mantissa_frac m) (exponent m)
             = Inr (shifted_mantissa (mantissa_int m @ mantissa_frac m)
                      (int (length (mantissa_int m)) + literal_exponent ex))"
proof -
  let ?ip = "mantissa_int m" and ?fp = "mantissa_frac m" and ?e = "literal_exponent ex"
  have m: "m = \<lparr>group1 = sg, group2 = dropWhile is_zero ip, group3 = map_option strip_zeros_end fr,
               group4 = map_option (\<lambda>(mk, sg, ds). sg @ ds) ex\<rparr>"
    using regex_match_literal_text [OF assms(1)] assms(3) by simp
  have mant: "?ip @ ?fp = dropWhile is_zero ip @ (case fr of None \<Rightarrow> [] | Some fp \<Rightarrow> strip_zeros_end fp)"
    by (cases fr) (simp_all add: m mantissa_int_def mantissa_frac_def)
  have e: "exponent m = (case ex of None \<Rightarrow> NotANumber | Some a \<Rightarrow> to_double ?e)"
    using literal_exponent_number [OF assms(1)] by (simp add: m exponent_def)
  have ml: "int (length (?ip @ ?fp)) \<le> int (length (literal_text sg ip fr ex))"
    unfolding mant using literal_mantissa_length_le [of ip fr sg ex] by simp
  have all: "returnValue ?ip ?fp (exponent m) =
     (if ?e = 0 \<or> int (length (shifted_mantissa (?ip @ ?fp) (int (length ?ip) + ?e))) \<le> max_string_length
      then Inr (shifted_mantissa (?ip @ ?fp) (int (length ?ip) + ?e)) else Inl RangeError)"
  proof (cases "?e = 0")
    case True
    then have "\<not> truthy (exponent m)"
      using e by (cases ex) (simp_all add: truthy_def to_double_zero)
    then have "returnValue ?ip ?fp (exponent m) = Inr (fixed_point ?ip ?fp)"
      using returnValue_plain [of "exponent m" ?ip ?fp] assms(4) by auto
    moreover have "shifted_mantissa (?ip @ ?fp) (int (length ?ip) + 0) = fixed_point ?ip ?fp"
      unfolding shifted_mantissa_fixed_point [OF assms(4), of 0] by (simp add: shift_parts_zero)
    ultimately show ?thesis using True by simp
  next
    case False
    then have ex: "ex \<noteq> None" by (cases ex) (simp_all add: literal_exponent_def)
    then have em: "exponent m = to_double ?e" using e by (cases ex) simp_all
    have "int (length (?ip @ ?fp)) + 2 \<le> int (length (literal_text sg ip fr ex))"
      unfolding mant by (rule literal_mantissa_length [OF assms(1) ex])
    then have short: "int (length (?ip @ ?fp)) < max_string_length" using assms(2) by simp
    show ?thesis
      unfolding em returnValue_to_double [OF False assms(4) short] using False by simp
  qed
  show "rv = shifted_mantissa (?ip @ ?fp) (int (length ?ip) + ?e)"
    if "returnValue ?ip ?fp (exponent m) = Inr rv"
    using that all by (simp split: if_splits)
  show "returnValue ?ip ?fp (exponent m) = Inr (shifted_mantissa (?ip @ ?fp) (int (length ?ip) + ?e))"
    if b: "int (length (literal_text sg ip fr ex)) + \<bar>?e\<bar> + 3 \<le> max_string_length"
  proof -
    have "int (length ?ip) \<le> int (length (?ip @ ?fp))" by simp
    then have "int (length (shifted_mantissa (?ip @ ?fp) (int (length ?ip) + ?e))) \<le> max_string_length"
      using length_shifted_le [of "?ip @ ?fp" "length ?ip" ?e] ml b
        length_shifted_mantissa [of "?ip @ ?fp" "int (length ?ip) + ?e"]
      by (auto split: if_splits)
    then show ?thesis using all by simp
  qed
qed

lemma length_shifted_tight:
  "li \<le> length m \<Longrightarrow> int (length (shifted_mantissa m (int li + e))) \<le> int (length m) + \<bar>e\<bar> + 2"
  unfolding length_shifted_mantissa by (auto simp: abs_if)

lemma Num2FracStr_literal:
  assumes "literal_parts sg ip fr ex" "int (length (literal_text sg ip fr ex)) \<le> max_string_length"
    and "regex_match (literal_text sg ip fr ex) = Some m"
  shows "Num2FracStr (JString (literal_text sg ip fr ex)) = Inr out \<Longrightarrow>
           out = (if mantissa_int m @ mantissa_frac m = [] then ''0''
                  else sign m @ (case canonical_parts (mantissa_int m) (mantissa_frac m) (literal_exponent ex)
                                 of (i, f) \<Rightarrow> fixed_point i f))"
    and "int (length (literal_text sg ip fr ex)) + \<bar>literal_exponent ex\<bar> + 3 \<le> max_string_length \<Longrightarrow>
           \<exists>r. Num2FracStr (JString (literal_text sg ip fr ex)) = Inr r"
proof -
  let ?t = "literal_text sg ip fr ex"
  let ?ip = "mantissa_int m" and ?fp = "mantissa_frac m" and ?e = "literal_exponent ex"
  have rm: "regex_match (String (JString ?t)) = Some m" using assms(3) by simp
  have n2f: "Num2FracStr (JString ?t) =
      (case returnValue ?ip ?fp (exponent m) of Inl err \<Rightarrow> Inl err
       | Inr rv \<Rightarrow> if rv \<noteq> [] then string_plus (sign m) (strip_trailing (strip_leading rv)) else Inr ''0'')"
    using assms(3) by (simp add: Num2FracStr_def)
  obtain i0 f0 where sh: "shift_parts ?ip ?fp ?e = (i0, f0)" by fastforce
  have d: "list_all is_digit i0" "list_all is_digit f0"
    using shift_parts_digits [OF mantissa_shape(1) [OF rm] mantissa_shape(3) [OF rm] sh] by simp_all
  have cp: "canonical_parts ?ip ?fp ?e = (dropWhile is_zero i0, strip_zeros_end f0)"
    using sh by (simp add: canonical_parts_def)
  have ml: "int (length (?ip @ ?fp)) \<le> int (length ?t)"
  proof -
    have "m = \<lparr>group1 = sg, group2 = dropWhile is_zero ip, group3 = map_option strip_zeros_end fr,
               group4 = map_option (\<lambda>(mk, sg, ds). sg @ ds) ex\<rparr>"
      using regex_match_literal_text [OF assms(1)] assms(3) by simp
    then have "?ip @ ?fp = dropWhile is_zero ip @ (case fr of None \<Rightarrow> [] | Some fp \<Rightarrow> strip_zeros_end fp)"
      by (cases fr) (simp_all add: mantissa_int_def mantissa_frac_def)
    then show ?thesis using literal_mantissa_length_le [of ip fr sg ex] by simp
  qed
  show "out = (if ?ip @ ?fp = [] then ''0''
               else sign m @ (case canonical_parts ?ip ?fp ?e of (i, f) \<Rightarrow> fixed_point i f))"
    if o: "Num2FracStr (JString ?t) = Inr out"
  proof (cases "?ip @ ?fp = []")
    case True
    then show ?thesis using o n2f by (simp add: returnValue_empty)
  next
    case False
    obtain rv where rv: "returnValue ?ip ?fp (exponent m) = Inr rv"
      using o n2f by (cases "returnValue ?ip ?fp (exponent m)") simp_all
    have "rv = shifted_mantissa (?ip @ ?fp) (int (length ?ip) + ?e)"
      by (rule returnValue_literal(1) [OF assms(1,2,3) False rv])
    then have r: "rv = fixed_point i0 f0"
      unfolding shifted_mantissa_fixed_point [OF False] using sh by simp
    then have "string_plus (sign m) (fixed_point (dropWhile is_zero i0) (strip_zeros_end f0)) = Inr out"
      using o n2f rv normalise_fixed_point [OF d] fixed_point_not_empty [of i0 f0] by simp
    from string_plus_Inr [OF this] show ?thesis using False cp by auto
  qed
  show "\<exists>r. Num2FracStr (JString ?t) = Inr r"
    if b: "int (length ?t) + \<bar>?e\<bar> + 3 \<le> max_string_length"
  proof (cases "?ip @ ?fp = []")
    case True
    then show ?thesis using n2f by (simp add: returnValue_empty)
  next
    case False
    have rv: "returnValue ?ip ?fp (exponent m) = Inr (shifted_mantissa (?ip @ ?fp) (int (length ?ip) + ?e))"
      by (rule returnValue_literal(2) [OF assms(1,2,3) False b])
    have r: "shifted_mantissa (?ip @ ?fp) (int (length ?ip) + ?e) = fixed_point i0 f0"
      unfolding shifted_mantissa_fixed_point [OF False] using sh by simp
    have "int (length (fixed_point i0 f0)) \<le> int (length (?ip @ ?fp)) + \<bar>?e\<bar> + 2"
      using length_shifted_tight [of "length ?ip" "?ip @ ?fp" ?e] r by simp
    moreover have "length (fixed_point (dropWhile is_zero i0) (strip_zeros_end f0)) \<le> length (fixed_point i0 f0)"
      by (rule length_fixed_point_canonical)
    moreover have "length (sign m) \<le> 1" by (simp add: sign_def)
    ultimately have "int (length (sign m)) + int (length (fixed_point (dropWhile is_zero i0) (strip_zeros_end f0)))
        \<le> max_string_length"
      using ml b by linarith
    then have "string_plus (sign m) (fixed_point (dropWhile is_zero i0) (strip_zeros_end f0))
        = Inr (sign m @ fixed_point (dropWhile is_zero i0) (strip_zeros_end f0))"
      by (simp add: string_plus_def)
    then show ?thesis
      using n2f rv r normalise_fixed_point [OF d] fixed_point_not_empty [of i0 f0] by simp
  qed
qed

text \<open>
  C1: for every literal of the grammar, written with its sign, integer digits, optional
  fraction digits and optional exponent, the string the conversion returns is a
  fixed-point numeral that denotes the rational number
  sign \<open>\<times>\<close> integer-digits.fraction-digits \<open>\<times> 10^exponent\<close>. It returns one whenever the
  literal and the zeros its exponent asks for fit into the longest string; beyond that
  line 100, 112 or 129 throws and nothing is returned.
\<close>

theorem value_preserved:
  assumes "literal_parts sg ip fr ex" "int (length (literal_text sg ip fr ex)) \<le> max_string_length"
  shows "(Num2FracStr (JString (literal_text sg ip fr ex)) = Inr out \<longrightarrow>
            decimal_numeral out \<and> decimal_value out = literal_value sg ip fr ex) \<and>
         (int (length (literal_text sg ip fr ex)) + \<bar>literal_exponent ex\<bar> + 3 \<le> max_string_length \<longrightarrow>
            (\<exists>r. Num2FracStr (JString (literal_text sg ip fr ex)) = Inr r))"
proof (intro conjI impI)
  define m where "m = \<lparr>group1 = sg, group2 = dropWhile is_zero ip, group3 = map_option strip_zeros_end fr,
               group4 = map_option (\<lambda>(mk, sg, ds). sg @ ds) ex\<rparr>"
  define v where "v = of_nat (digits_val ip) + (case fr of None \<Rightarrow> 0 | Some fp \<Rightarrow> frac_value fp)"
  define sgn where "sgn = (if sg = ''-'' then - 1 else (1::rat))"
  have rm: "regex_match (literal_text sg ip fr ex) = Some m"
    using regex_match_literal_text [OF assms(1)] by (simp add: m_def)
  then have rm': "regex_match (String (JString (literal_text sg ip fr ex))) = Some m" by simp
  show "\<exists>r. Num2FracStr (JString (literal_text sg ip fr ex)) = Inr r"
    if "int (length (literal_text sg ip fr ex)) + \<bar>literal_exponent ex\<bar> + 3 \<le> max_string_length"
    using that by (rule Num2FracStr_literal(2) [OF assms rm])
  assume o: "Num2FracStr (JString (literal_text sg ip fr ex)) = Inr out"
  have out: "out = (if mantissa_int m @ mantissa_frac m = [] then ''0''
                  else sign m @ (case canonical_parts (mantissa_int m) (mantissa_frac m) (literal_exponent ex)
                                 of (i, f) \<Rightarrow> fixed_point i f))"
    by (rule Num2FracStr_literal(1) [OF assms rm o])
  have lv: "literal_value sg ip fr ex = sgn * v * power_int 10 (literal_exponent ex)"
    by (cases fr) (simp_all add: literal_value_def sgn_def v_def frac_value_def)
  have mv: "of_nat (digits_val (mantissa_int m)) + frac_value (mantissa_frac m) = v"
    by (cases fr) (simp_all add: m_def v_def mantissa_int_def mantissa_frac_def digits_val_dropWhile
        frac_value_strip frac_value_Nil)
  have sg: "sign m = [] \<or> sign m = ''-''" by (rule sign_cases)
  have sm: "(if sign m = ''-'' then - 1 else (1::rat)) = sgn"
    by (simp add: sign_def m_def sgn_def)
  have "decimal_numeral out \<and> decimal_value out = literal_value sg ip fr ex"
  proof (cases "mantissa_int m @ mantissa_frac m = []")
    case True
    then have "v = 0" using mv by (simp add: digits_val_Nil frac_value_Nil)
    then have "literal_value sg ip fr ex = 0" using lv by simp
    then show ?thesis using out True decimal_value_zero decimal_numeral_zero by simp
  next
    case False
    obtain i f where cp: "canonical_parts (mantissa_int m) (mantissa_frac m) (literal_exponent ex) = (i, f)"
      by fastforce
    have o': "out = sign m @ fixed_point i f" using out False cp by auto
    have di: "list_all is_digit i" "list_all is_digit f"
      using canonical_parts_shape(1,2) [OF mantissa_shape(1) [OF rm'] mantissa_shape(3) [OF rm'] cp] .
    have "decimal_value (sign m @ fixed_point i f) = sgn * (of_nat (digits_val i) + frac_value f)"
      using decimal_value_fixed_point [OF di(1) sg, of f] sm by simp
    also have "\<dots> = sgn * (v * power_int 10 (literal_exponent ex))"
      using canonical_parts_value [OF cp] mv by simp
    finally show ?thesis using o' lv decimal_numeral_fixed_point [OF di sg] by (simp add: mult.assoc)
  qed
  then show "decimal_numeral out" "decimal_value out = literal_value sg ip fr ex" by simp_all
qed

theorem value_preserved_witness:
  "Num2FracStr (JString ''-0012.5000e+3'') = Inr ''-12500'' \<and>
   decimal_numeral ''-12500'' \<and>
   decimal_value ''-12500'' = - 12500 \<and>
   literal_value ''-'' ''0012'' (Some ''5000'') (Some (CHR ''e'', ''+'', ''3'')) = - 12500"
proof -
  have p: "literal_parts ''-'' ''0012'' (Some ''5000'') (Some (CHR ''e'', ''+'', ''3''))"
    by (simp add: literal_parts_def is_sign_text_def is_digit_def is_exp_mark_def)
  have t: "literal_text ''-'' ''0012'' (Some ''5000'') (Some (CHR ''e'', ''+'', ''3'')) = ''-0012.5000e+3''"
    by (simp add: literal_text_def fraction_text_def exponent_text_def)
  have n: "int (length (literal_text ''-'' ''0012'' (Some ''5000'') (Some (CHR ''e'', ''+'', ''3'')))) \<le> max_string_length"
    by (simp add: t max_string_length_def)
  have h: "Num2FracStr (JString ''-0012.5000e+3'') = Inr ''-12500''" by code_simp
  have l: "literal_value ''-'' ''0012'' (Some ''5000'') (Some (CHR ''e'', ''+'', ''3'')) = - 12500"
    by (simp add: literal_value_def literal_exponent_def digits_val_def digit_val_def)
  show ?thesis
    using value_preserved [OF p n, of "''-12500''"] h l by (simp add: t)
qed

end
